theory Spec2Isabelle
  imports Main "HOL-Library.Word" "HOL-Library.AList" "HOL-Library.Char_ord"
    "HOL-Library.List_Lexorder" "HOL-Library.Product_Lexorder"
begin

unbundle bit_operations_syntax

section \<open>Python values used by the runner\<close>

text \<open>
  A Python \<open>bytes\<close> object is a list of 8-bit words. Python's unbounded integers are
  \<open>int\<close>; lengths, offsets and values read from bytes are never negative and are \<open>nat\<close>.
  The exceptions the modelled functions can raise are values of \<open>error\<close>.
\<close>

type_synonym byte = "8 word"
type_synonym bytes = "byte list"

datatype error = ValueError | ZeroDivisionError | IndexError | HTTP404

text \<open>\<open>xs[i:j]\<close> for \<open>0 \<le> i\<close>, \<open>0 \<le> j\<close>: Python clamps a slice to the sequence.\<close>

definition py_slice :: "'a list \<Rightarrow> nat \<Rightarrow> nat \<Rightarrow> 'a list" where
  "py_slice xs i j = take (j - i) (drop i xs)"

text \<open>\<open>int.from_bytes(b, "big")\<close> and \<open>int.from_bytes(b, "little")\<close>, unsigned.\<close>

definition from_bytes_big :: "bytes \<Rightarrow> nat" where
  "from_bytes_big bs = foldl (\<lambda>a b. a * 256 + unat b) 0 bs"

fun from_bytes_little :: "bytes \<Rightarrow> nat" where
  "from_bytes_little [] = 0"
| "from_bytes_little (b # bs) = unat b + 256 * from_bytes_little bs"

text \<open>\<open>n.to_bytes(2, "big")\<close>; the callers pass values read from two bytes, below 65536.\<close>

definition to_bytes2_big :: "nat \<Rightarrow> bytes" where
  "to_bytes2_big n = [of_nat (n div 256), of_nat (n mod 256)]"

text \<open>\<open>sep.join(parts)\<close>.\<close>

fun join :: "'a list \<Rightarrow> 'a list list \<Rightarrow> 'a list" where
  "join sep [] = []"
| "join sep [x] = x"
| "join sep (x # y # ys) = x @ sep @ join sep (y # ys)"

text \<open>\<open>str(n)\<close> for a non-negative integer, and the digits of \<open>format(n, "x")\<close>.\<close>

definition digit_char :: "nat \<Rightarrow> char" where
  "digit_char d = (if d < 10 then char_of (48 + d) else char_of (87 + d))"

fun str_nat :: "nat \<Rightarrow> string" where
  "str_nat n = (if n < 10 then [digit_char n] else str_nat (n div 10) @ [digit_char (n mod 10)])"

fun hex_nat :: "nat \<Rightarrow> string" where
  "hex_nat n = (if n < 16 then [digit_char n] else hex_nat (n div 16) @ [digit_char (n mod 16)])"

declare str_nat.simps [simp del] hex_nat.simps [simp del]

text \<open>\<open>f"{n:04x}"\<close>: lower-case hexadecimal, zero-padded on the left to four digits.\<close>

definition fmt_04x :: "nat \<Rightarrow> string" where
  "fmt_04x n = replicate (4 - length (hex_nat n)) (CHR ''0'') @ hex_nat n"

section \<open>split_pcap.py: flow keys\<close>

definition PCAP_GLOBAL_HDR_LEN :: nat where
  "PCAP_GLOBAL_HDR_LEN = 24"

definition PCAP_PKT_HDR_LEN :: nat where
  "PCAP_PKT_HDR_LEN = 16"

text \<open>
  \<open>hashlib.sha1\<close> is the standard library's; the digest function is a parameter
  \<open>sha1\<close> of everything that hashes.
\<close>

definition hash_key :: "(bytes \<Rightarrow> bytes) \<Rightarrow> bytes \<Rightarrow> nat" where
  "hash_key sha1 key = from_bytes_big (take 8 (sha1 key))"

definition fmt_ipv4 :: "bytes \<Rightarrow> string" where
  "fmt_ipv4 ip4 = join ''.'' (map (\<lambda>b. str_nat (unat b)) ip4)"

definition fmt_ipv6 :: "bytes \<Rightarrow> string" where
  "fmt_ipv6 ip6 =
     join '':'' (map (\<lambda>i. fmt_04x (from_bytes_big (py_slice ip6 i (i + 2)))) [0, 2, 4, 6, 8, 10, 12, 14])"

text \<open>
  \<open>_ipv4_tuple\<close> and \<open>_ipv6_tuple\<close> return \<open>None\<close> or the tuple
  \<open>(src_ip, dst_ip, src_port, dst_port, proto)\<close>. Every index read (\<open>ip[0]\<close>,
  \<open>ip[9]\<close>, \<open>ip[6]\<close>) is behind the length check of the first line, so it is in range.
\<close>

definition ipv4_tuple :: "bytes \<Rightarrow> (bytes \<times> bytes \<times> nat \<times> nat \<times> nat) option" where
  "ipv4_tuple pkt =
    (if length pkt < 14 + 20 then None
     else let eth_type = from_bytes_big (py_slice pkt 12 14) in
     if eth_type \<noteq> 0x0800 then None
     else let ip = drop 14 pkt;
              ver_ihl = ip ! 0;
              ver = drop_bit 4 ver_ihl in
     if ver \<noteq> 4 then None
     else let ihl = unat (ver_ihl AND 0x0F) * 4 in
     if length ip < ihl then None
     else let proto = unat (ip ! 9);
              src_ip = py_slice ip 12 16;
              dst_ip = py_slice ip 16 20 in
     if proto = 6 \<or> proto = 17 then
       (if length ip < ihl + 4 then None
        else let l4 = drop ihl ip;
                 src_port = from_bytes_big (py_slice l4 0 2);
                 dst_port = from_bytes_big (py_slice l4 2 4)
             in Some (src_ip, dst_ip, src_port, dst_port, proto))
     else Some (src_ip, dst_ip, 0, 0, proto))"

definition ipv6_tuple :: "bytes \<Rightarrow> (bytes \<times> bytes \<times> nat \<times> nat \<times> nat) option" where
  "ipv6_tuple pkt =
    (if length pkt < 14 + 40 then None
     else let eth_type = from_bytes_big (py_slice pkt 12 14) in
     if eth_type \<noteq> 0x86DD then None
     else let ip = drop 14 pkt;
              ver = drop_bit 4 (ip ! 0) in
     if ver \<noteq> 6 then None
     else let nxt = unat (ip ! 6);
              src_ip = py_slice ip 8 24;
              dst_ip = py_slice ip 24 40;
              proto = nxt in
     if proto = 6 \<or> proto = 17 then
       (if length ip < 40 + 4 then None
        else let l4 = drop 40 ip;
                 src_port = from_bytes_big (py_slice l4 0 2);
                 dst_port = from_bytes_big (py_slice l4 2 4)
             in Some (src_ip, dst_ip, src_port, dst_port, proto))
     else Some (src_ip, dst_ip, 0, 0, proto))"

text \<open>The display dictionary that \<open>tuple_for_packet\<close> returns beside the key.\<close>

record rep =
  ip_ver :: nat
  src_ip :: string
  dst_ip :: string
  src_port :: nat
  dst_port :: nat
  proto :: nat

definition byte_of_char :: "char \<Rightarrow> byte" where
  "byte_of_char c = of_char c"

definition tuple_for_packet :: "bytes \<Rightarrow> bytes \<times> rep" where
  "tuple_for_packet pkt =
    (case ipv4_tuple pkt of
       Some (src_ip_b, dst_ip_b, sp, dp, pr) \<Rightarrow>
         ([byte_of_char (CHR ''4'')] @ src_ip_b @ dst_ip_b @ to_bytes2_big sp @ to_bytes2_big dp @ [of_nat pr],
          \<lparr>ip_ver = 4, src_ip = fmt_ipv4 src_ip_b, dst_ip = fmt_ipv4 dst_ip_b,
           src_port = sp, dst_port = dp, proto = pr\<rparr>)
     | None \<Rightarrow>
    (case ipv6_tuple pkt of
       Some (src_ip_b, dst_ip_b, sp, dp, pr) \<Rightarrow>
         ([byte_of_char (CHR ''6'')] @ src_ip_b @ dst_ip_b @ to_bytes2_big sp @ to_bytes2_big dp @ [of_nat pr],
          \<lparr>ip_ver = 6, src_ip = fmt_ipv6 src_ip_b, dst_ip = fmt_ipv6 dst_ip_b,
           src_port = sp, dst_port = dp, proto = pr\<rparr>)
     | None \<Rightarrow>
         ([byte_of_char (CHR ''X'')] @ take 64 pkt,
          \<lparr>ip_ver = 0, src_ip = ''-'', dst_ip = ''-'', src_port = 0, dst_port = 0, proto = 0\<rparr>)))"

section \<open>split_pcap.py: the sharder\<close>

text \<open>
  One entry of \<open>flow_map\<close>: the display fields of \<open>rep\<close>, the worker id and the
  packet count. \<open>flow_map\<close> is a Python dict, which keeps insertion order: an association
  list, updated in place for a key it has and extended at the end for a new one.
\<close>

record flow_rec = rep +
  worker :: int
  pkt_count :: nat

text \<open>
  The state of one run: the contents of the files \<open>worker1.pcap\<close>, ... in \<open>outs\<close>
  (position \<open>i\<close> is \<open>worker{i+1}.pcap\<close>) and the flow map.
\<close>

record split_state =
  outs :: "bytes list"
  flow_map :: "(bytes \<times> flow_rec) list"

text \<open>\<open>a % b\<close> raises on a zero divisor; otherwise it is HOL's \<open>mod\<close> on \<open>int\<close>.\<close>

definition py_mod :: "int \<Rightarrow> int \<Rightarrow> error + int" where
  "py_mod a b = (if b = 0 then Inl ZeroDivisionError else Inr (a mod b))"

text \<open>
  The position that \<open>xs[i]\<close> reads: \<open>i\<close> itself when it is in range, \<open>len(xs) + i\<close>
  for a negative \<open>i\<close> down to \<open>-len(xs)\<close>, and \<open>IndexError\<close> otherwise.
\<close>

definition py_index :: "'a list \<Rightarrow> int \<Rightarrow> error + nat" where
  "py_index xs i =
     (if 0 \<le> i \<and> i < int (length xs) then Inr (nat i)
      else if i < 0 \<and> - int (length xs) \<le> i then Inr (nat (int (length xs) + i))
      else Inl IndexError)"

text \<open>
  The body of the loop from \<open>key, rep = tuple_for_packet(pkt)\<close> on: pick the shard, append
  the record header and the payload to its file, count the packet in the flow map.
\<close>

definition route_packet ::
  "(bytes \<Rightarrow> bytes) \<Rightarrow> int \<Rightarrow> bytes \<Rightarrow> bytes \<Rightarrow> split_state \<Rightarrow> error + split_state" where
  "route_packet sha1 workers pkt_hdr pkt st =
    (let (key, rep) = tuple_for_packet pkt in
     case py_mod (int (hash_key sha1 key)) workers of
       Inl e \<Rightarrow> Inl e
     | Inr idx \<Rightarrow>
    (let worker_id = idx + 1 in
     case py_index (outs st) idx of
       Inl e \<Rightarrow> Inl e
     | Inr j \<Rightarrow>
    (let outs' = (outs st)[j := (outs st ! j) @ pkt_hdr @ pkt];
         flow_map' =
           (case map_of (flow_map st) key of
              None \<Rightarrow>
                AList.update key
                  \<lparr>ip_ver = ip_ver rep, src_ip = src_ip rep, dst_ip = dst_ip rep,
                   src_port = src_port rep, dst_port = dst_port rep, proto = proto rep,
                   worker = worker_id, pkt_count = 1\<rparr> (flow_map st)
            | Some r \<Rightarrow>
                AList.update key (r\<lparr>pkt_count := pkt_count r + 1\<rparr>) (flow_map st))
     in Inr (st\<lparr>outs := outs', flow_map := flow_map'\<rparr>))))"

text \<open>The \<open>while\<close> loop over the packet records, from offset \<open>off\<close>.\<close>

function split_loop ::
  "(bytes \<Rightarrow> bytes) \<Rightarrow> int \<Rightarrow> bytes \<Rightarrow> nat \<Rightarrow> split_state \<Rightarrow> error + split_state" where
  "split_loop sha1 workers data off st =
    (if off + PCAP_PKT_HDR_LEN \<le> length data then
       (let pkt_hdr = py_slice data off (off + PCAP_PKT_HDR_LEN);
            incl_len = from_bytes_little (py_slice pkt_hdr 8 12);
            pkt_off = off + PCAP_PKT_HDR_LEN;
            pkt_end = pkt_off + incl_len
        in if pkt_end > length data then Inr st
           else (let pkt = py_slice data pkt_off pkt_end in
                 case route_packet sha1 workers pkt_hdr pkt st of
                   Inl e \<Rightarrow> Inl e
                 | Inr st' \<Rightarrow> split_loop sha1 workers data pkt_end st'))
     else Inr st)"
  by pat_completeness auto
termination
  by (relation "measure (\<lambda>(sha1, workers, data, off, st). length data - off)")
     (auto simp: PCAP_PKT_HDR_LEN_def)

declare split_loop.simps [simp del]

text \<open>
  \<open>rows.sort(key=...)\<close>: Python's sort is stable and the key is a tuple of integers and
  strings, compared lexicographically, strings by code point.
\<close>

definition row_key :: "flow_rec \<Rightarrow> int \<times> int \<times> nat \<times> string \<times> string \<times> nat" where
  "row_key r = (worker r, - int (pkt_count r), ip_ver r, src_ip r, dst_ip r, proto r)"

definition str_int :: "int \<Rightarrow> string" where
  "str_int i = (if i < 0 then ''-'' @ str_nat (nat (- i)) else str_nat (nat i))"

definition write_worker_map_log :: "flow_rec list \<Rightarrow> string" where
  "write_worker_map_log rows =
     ''#separator '' @ [CHR 0x09, CHR 0x0A] @
     ''#set_separator ,'' @ [CHR 0x0A] @
     ''#empty_field (empty)'' @ [CHR 0x0A] @
     ''#unset_field -'' @ [CHR 0x0A] @
     ''#path worker_map'' @ [CHR 0x0A] @
     ''#open 0'' @ [CHR 0x0A] @
     ''#fields'' @ [CHR 0x09] @ join [CHR 0x09]
        [''worker'', ''ip_ver'', ''src_ip'', ''src_port'', ''dst_ip'', ''dst_port'', ''proto'',
         ''pkt_count''] @ [CHR 0x0A] @
     ''#types'' @ [CHR 0x09] @ join [CHR 0x09]
        [''count'', ''count'', ''string'', ''port'', ''string'', ''port'', ''count'', ''count'']
        @ [CHR 0x0A] @
     concat (map (\<lambda>r. join [CHR 0x09]
        [str_int (worker r), str_nat (ip_ver r), src_ip r, str_nat (src_port r), dst_ip r,
         str_nat (dst_port r), str_nat (proto r), str_nat (pkt_count r)] @ [CHR 0x0A]) rows) @
     ''#close 0'' @ [CHR 0x0A]"

text \<open>
  What a run leaves behind: the shard files, the flow map, and the text of
  \<open>worker_map.log\<close>.
\<close>

record split_result =
  shard_files :: "bytes list"
  flows :: "(bytes \<times> flow_rec) list"
  worker_map_log :: string

text \<open>
  \<open>split_pcap_flowhash\<close>, with the capture's bytes for \<open>pcap_path.read_bytes()\<close>.
  \<open>range(workers)\<close> is empty for \<open>workers \<le> 0\<close>.
\<close>

definition split_pcap_flowhash :: "(bytes \<Rightarrow> bytes) \<Rightarrow> bytes \<Rightarrow> int \<Rightarrow> error + split_result" where
  "split_pcap_flowhash sha1 data workers =
    (let outs0 = replicate (nat workers) ([] :: bytes) in
     if length data < PCAP_GLOBAL_HDR_LEN then Inl ValueError
     else let global_hdr = py_slice data 0 PCAP_GLOBAL_HDR_LEN;
              outs1 = map (\<lambda>f. f @ global_hdr) outs0 in
     case split_loop sha1 workers data PCAP_GLOBAL_HDR_LEN \<lparr>outs = outs1, flow_map = []\<rparr> of
       Inl e \<Rightarrow> Inl e
     | Inr st \<Rightarrow>
         (let rows = sort_key row_key (map snd (flow_map st))
          in Inr \<lparr>shard_files = outs st, flows = flow_map st,
                  worker_map_log = write_worker_map_log rows\<rparr>))"

subsection \<open>The records of a capture\<close>

text \<open>
  The packet records that the loop of \<open>split_pcap_flowhash\<close> visits from offset \<open>off\<close>,
  each as (record header, payload): the same reads and the same two exits as the loop,
  without the routing.
\<close>

function pcap_records :: "bytes \<Rightarrow> nat \<Rightarrow> (bytes \<times> bytes) list" where
  "pcap_records data off =
    (if off + PCAP_PKT_HDR_LEN \<le> length data then
       (let pkt_hdr = py_slice data off (off + PCAP_PKT_HDR_LEN);
            incl_len = from_bytes_little (py_slice pkt_hdr 8 12);
            pkt_off = off + PCAP_PKT_HDR_LEN;
            pkt_end = pkt_off + incl_len
        in if pkt_end > length data then []
           else (pkt_hdr, py_slice data pkt_off pkt_end) # pcap_records data pkt_end)
     else [])"
  by pat_completeness auto
termination
  by (relation "measure (\<lambda>(data, off). length data - off)")
     (auto simp: PCAP_PKT_HDR_LEN_def)

declare pcap_records.simps [simp del]

text \<open>The loop body applied to a list of records in turn, stopping at the first error.\<close>

fun route_all ::
  "(bytes \<Rightarrow> bytes) \<Rightarrow> int \<Rightarrow> (bytes \<times> bytes) list \<Rightarrow> split_state \<Rightarrow> error + split_state" where
  "route_all sha1 workers [] st = Inr st"
| "route_all sha1 workers ((pkt_hdr, pkt) # rs) st =
     (case route_packet sha1 workers pkt_hdr pkt st of
        Inl e \<Rightarrow> Inl e
      | Inr st' \<Rightarrow> route_all sha1 workers rs st')"

text \<open>
  A complete record has a 16-byte record header whose bytes 8 to 11, read little-endian,
  give the length of its payload. A truncated rest is too short for a record header, or
  declares more payload than follows. \<open>record_bytes\<close> are the bytes of a record in the
  capture.
\<close>

definition complete_record :: "bytes \<times> bytes \<Rightarrow> bool" where
  "complete_record r =
     (length (fst r) = PCAP_PKT_HDR_LEN \<and> from_bytes_little (py_slice (fst r) 8 12) = length (snd r))"

definition truncated_tail :: "bytes \<Rightarrow> bool" where
  "truncated_tail t =
     (length t < PCAP_PKT_HDR_LEN \<or>
      length t < PCAP_PKT_HDR_LEN + from_bytes_little (py_slice t 8 12))"

definition record_bytes :: "bytes \<times> bytes \<Rightarrow> bytes" where
  "record_bytes r = fst r @ snd r"

text \<open>
  The 0-based shard index of a packet and of a flow key under \<open>workers\<close> shards, and the
  number of records in a list whose packet has a given key.
\<close>

definition shard_index :: "(bytes \<Rightarrow> bytes) \<Rightarrow> int \<Rightarrow> bytes \<Rightarrow> int" where
  "shard_index sha1 workers pkt = int (hash_key sha1 (fst (tuple_for_packet pkt))) mod workers"

definition key_count :: "bytes \<Rightarrow> (bytes \<times> bytes) list \<Rightarrow> nat" where
  "key_count k rs = length (filter (\<lambda>r. fst (tuple_for_packet (snd r)) = k) rs)"

definition key_shard :: "(bytes \<Rightarrow> bytes) \<Rightarrow> int \<Rightarrow> bytes \<Rightarrow> int" where
  "key_shard sha1 workers k = int (hash_key sha1 k) mod workers"

text \<open>
  A small capture for the concrete instances below: a zero global header, a record with the
  2-byte payload \<open>01 02\<close>, a record with the 1-byte payload \<open>07\<close>, and three stray bytes.
  Neither payload is an IP packet, so both get the fallback key. The instances take the
  identity for the digest function.
\<close>

definition ex_ghdr :: bytes where
  "ex_ghdr = replicate 24 0"

definition ex_rec_a :: "bytes \<times> bytes" where
  "ex_rec_a = (replicate 8 0 @ [2, 0, 0, 0] @ replicate 4 0, [1, 2])"

definition ex_rec_b :: "bytes \<times> bytes" where
  "ex_rec_b = (replicate 8 0 @ [1, 0, 0, 0] @ replicate 4 0, [7])"

definition ex_tail :: bytes where
  "ex_tail = [9, 9, 9]"

definition ex_capture :: bytes where
  "ex_capture = ex_ghdr @ concat (map record_bytes [ex_rec_a, ex_rec_b]) @ ex_tail"

text \<open>
  A 34-byte Ethernet frame: ether-type 0x0800, first IP byte 0x45 (version 4, header length
  20), protocol 6 (TCP), and nothing after the 20-byte IP header.
\<close>

definition ex_short_tcp :: bytes where
  "ex_short_tcp = replicate 12 0 @ [0x08, 0x00, 0x45] @ replicate 8 0 @ [6] @ replicate 10 0"

section \<open>main.py: the query language\<close>

text \<open>
  A Python \<open>str\<close> is a \<open>string\<close> whose characters stand for code points below 256.
  \<open>is_space\<close> is the whitespace of \<open>str.strip()\<close> and of \<open>\s\<close> in a \<open>str\<close> pattern:
  tab to carriage return, the separators 28 to 31, the space, NEL (133) and the
  no-break space (160).
\<close>

definition is_space :: "char \<Rightarrow> bool" where
  "is_space c = (let n = (of_char c :: nat) in (9 \<le> n \<and> n \<le> 13) \<or> (28 \<le> n \<and> n \<le> 32) \<or> n = 133 \<or> n = 160)"

definition py_strip :: "string \<Rightarrow> string" where
  "py_strip s = rev (dropWhile is_space (rev (dropWhile is_space s)))"

text \<open>
  Case mapping of one character: ASCII letters and the Latin-1 letters 192 to 222 and
  224 to 254 (but not the signs 215 and 247). \<open>str.upper()\<close> turns the sharp s (223) into
  \<open>SS\<close>; the micro sign (181) and the y with diaeresis (255) have upper-case forms
  above 255 and are left as they are, which no comparison below can tell apart: the only
  strings \<open>upper()\<close> is compared with are \<open>AND\<close>, \<open>OR\<close> and \<open>NOT\<close>.
\<close>

definition lower_char :: "char \<Rightarrow> char" where
  "lower_char c = (let n = (of_char c :: nat) in
     if (65 \<le> n \<and> n \<le> 90) \<or> (192 \<le> n \<and> n \<le> 222 \<and> n \<noteq> 215) then char_of (n + 32) else c)"

definition upper_char :: "char \<Rightarrow> char" where
  "upper_char c = (let n = (of_char c :: nat) in
     if (97 \<le> n \<and> n \<le> 122) \<or> (224 \<le> n \<and> n \<le> 254 \<and> n \<noteq> 247) then char_of (n - 32) else c)"

definition py_upper :: "string \<Rightarrow> string" where
  "py_upper s = concat (map (\<lambda>c. if c = CHR 0xDF then ''SS'' else [upper_char c]) s)"

definition startswith :: "string \<Rightarrow> string \<Rightarrow> bool" where
  "startswith s p = (take (length p) s = p)"

text \<open>
  \<open>_TOKEN_RE\<close> is \<open>\s*( \(|\) | (?i:AND|OR|NOT) | [^\s()]+ | "(?:\\.|[^"])*" )\<close>. Each
  alternative of the group is a function that returns the length of its match at the start
  of the string; the regex engine takes the first alternative that matches, in the order
  written, and nothing follows the group that could make it reconsider.
\<close>

definition alt_paren :: "string \<Rightarrow> nat option" where
  "alt_paren s = (case s of [] \<Rightarrow> None
     | c # cs \<Rightarrow> if c = CHR ''('' \<or> c = CHR '')'' then Some 1 else None)"

text \<open>\<open>(?i:kw)\<close> at the start of \<open>s\<close>: the letters compared without case.\<close>

definition ci_prefix :: "string \<Rightarrow> string \<Rightarrow> bool" where
  "ci_prefix kw s = (length kw \<le> length s \<and> map lower_char (take (length kw) s) = map lower_char kw)"

definition alt_keyword :: "string \<Rightarrow> nat option" where
  "alt_keyword s =
     (if ci_prefix ''AND'' s then Some 3
      else if ci_prefix ''OR'' s then Some 2
      else if ci_prefix ''NOT'' s then Some 3
      else None)"

definition atom_char :: "char \<Rightarrow> bool" where
  "atom_char c = (\<not> is_space c \<and> c \<noteq> CHR ''('' \<and> c \<noteq> CHR '')'')"

definition alt_atom :: "string \<Rightarrow> nat option" where
  "alt_atom s = (let n = length (takeWhile atom_char s) in if n = 0 then None else Some n)"

text \<open>
  The rest of a quoted string after its opening quote, \<open>(?:\\.|[^"])*"\<close>, with the
  engine's backtracking: first a backslash and any character but a newline, then any
  character but a quote, then the closing quote.
\<close>

fun quoted_rest :: "string \<Rightarrow> nat option" where
  "quoted_rest [] = None"
| "quoted_rest [c] = (if c = CHR 0x22 then Some 1 else None)"
| "quoted_rest (c # d # ds) =
     (case (if c = CHR 0x5C \<and> d \<noteq> CHR 0x0A then map_option (\<lambda>n. n + 2) (quoted_rest ds) else None) of
        Some n \<Rightarrow> Some n
      | None \<Rightarrow>
     (case (if c \<noteq> CHR 0x22 then map_option Suc (quoted_rest (d # ds)) else None) of
        Some n \<Rightarrow> Some n
      | None \<Rightarrow> if c = CHR 0x22 then Some 1 else None))"

definition alt_quoted :: "string \<Rightarrow> nat option" where
  "alt_quoted s = (case s of [] \<Rightarrow> None
     | c # cs \<Rightarrow> if c = CHR 0x22 then map_option Suc (quoted_rest cs) else None)"

definition token_len :: "string \<Rightarrow> nat option" where
  "token_len s =
     (case alt_paren s of Some n \<Rightarrow> Some n | None \<Rightarrow>
      case alt_keyword s of Some n \<Rightarrow> Some n | None \<Rightarrow>
      case alt_atom s of Some n \<Rightarrow> Some n | None \<Rightarrow> alt_quoted s)"

text \<open>
  \<open>_tokenize\<close>: \<open>finditer\<close> matches \<open>\s*\<close> and the group at the current position, and
  goes on after the match; where nothing matches it tries the next position. (Giving back
  whitespace from \<open>\s*\<close> cannot help: no alternative starts with a whitespace character.)
  An empty group would be skipped by \<open>if not t: continue\<close>.
\<close>

text \<open>For the termination of the tokenizer: what follows leading whitespace is no longer.\<close>

lemma dropWhile_Cons_length: "dropWhile P s = c # t \<Longrightarrow> Suc (length t) \<le> length s"
  using length_dropWhile_le [of P s] by simp

function tokenize :: "string \<Rightarrow> string list" where
  "tokenize s =
     (let r = dropWhile is_space s in
      case token_len r of
        None \<Rightarrow> (case s of [] \<Rightarrow> [] | c # t \<Rightarrow> tokenize t)
      | Some n \<Rightarrow>
          if n = 0 then (case r of [] \<Rightarrow> [] | c # t \<Rightarrow> tokenize t)
          else (case r of [] \<Rightarrow> [] | c # t \<Rightarrow> take n r # tokenize (drop n r)))"
  by pat_completeness auto
termination
proof (relation "measure length", goal_cases)
  case 1
  show ?case by simp
next
  case (2 s r c t)
  then show ?case by simp
next
  case (3 s r n c t)
  then show ?case using dropWhile_Cons_length [of is_space s c t] by simp
next
  case (4 s r n c t)
  then have d: "dropWhile is_space s = c # t" by simp
  have "length (dropWhile is_space s) \<le> length s" by (rule length_dropWhile_le)
  then have "length (drop n (dropWhile is_space s)) < length s"
    using 4(3) d by simp
  then show ?case using 4(1) by simp
qed

declare tokenize.simps [simp del]

text \<open>
  \<open>_strip_quotes\<close>. \<open>replace2 a b r\<close> is \<open>str.replace\<close> of the two-character string
  \<open>ab\<close> by the one character \<open>r\<close>, left to right without overlap.
\<close>

fun replace2 :: "char \<Rightarrow> char \<Rightarrow> char \<Rightarrow> string \<Rightarrow> string" where
  "replace2 a b r (c # d # cs) = (if c = a \<and> d = b then r # replace2 a b r cs else c # replace2 a b r (d # cs))"
| "replace2 a b r cs = cs"

definition strip_quotes :: "string \<Rightarrow> string" where
  "strip_quotes s =
     (if length s \<ge> 2 \<and> hd s = CHR 0x22 \<and> last s = CHR 0x22 then
        (let inner = butlast (tl s);
             inner = replace2 (CHR 0x5C) (CHR 0x5C) (CHR 0x5C) (replace2 (CHR 0x5C) (CHR 0x22) (CHR 0x22) inner)
         in inner)
      else s)"

text \<open>
  \<open>_wildcard_to_regex\<close> and \<open>_match_value\<close>. The regex is \<open>^\<close>, then \<open>.*\<close> for \<open>*\<close>,
  \<open>.\<close> for \<open>?\<close> and the escaped character for any other, then \<open>$\<close>, compiled with
  \<open>re.IGNORECASE\<close>; every other character is escaped, so compilation cannot fail and the
  substring fallback of the \<open>except\<close> branch is never taken. \<open>wildcard_match pat val\<close>
  says whether \<open>rx.search(val)\<close> finds a match: \<open>.\<close> is any character but a newline, a
  literal matches without case, and \<open>$\<close> matches at the end or before a final newline.
\<close>

fun wildcard_match :: "string \<Rightarrow> string \<Rightarrow> bool" where
  "wildcard_match [] v = (v = [] \<or> v = [CHR 0x0A])"
| "wildcard_match (p # ps) [] = (p = CHR ''*'' \<and> wildcard_match ps [])"
| "wildcard_match (p # ps) (c # cs) =
     (if p = CHR ''*'' then wildcard_match ps (c # cs) \<or> (c \<noteq> CHR 0x0A \<and> wildcard_match (p # ps) cs)
      else if p = CHR ''?'' then c \<noteq> CHR 0x0A \<and> wildcard_match ps cs
      else lower_char p = lower_char c \<and> wildcard_match ps cs)"

definition match_value :: "string \<Rightarrow> string \<Rightarrow> bool" where
  "match_value val pat = wildcard_match pat val"

text \<open>
  A row is a Python dict from field names to values: an association list with one entry
  per key. \<open>row.get(field, "")\<close> and \<open>row.values()\<close>:
\<close>

type_synonym row = "(string \<times> string) list"

definition row_get :: "row \<Rightarrow> string \<Rightarrow> string" where
  "row_get row field = (case map_of row field of None \<Rightarrow> [] | Some v \<Rightarrow> v)"

definition row_values :: "row \<Rightarrow> string list" where
  "row_values row = map snd row"

text \<open>
  \<open>re.match(r"^([^:=]+)\s*[:=]\s*(.+)$", term)\<close>, returning the two groups. Group 1 is the
  longest prefix without \<open>:\<close> and \<open>=\<close> and must not be empty; the next character must be
  the separator (a shorter group 1 would leave a non-separator before it). After the
  separator \<open>\s*\<close> first takes all the whitespace and gives it back one character at a time
  while \<open>(.+)$\<close> does not match; \<open>(.+)$\<close> matches when the characters up to the first
  newline are not empty and nothing or only that one newline follows.
\<close>

definition not_sep :: "char \<Rightarrow> bool" where
  "not_sep c = (c \<noteq> CHR '':'' \<and> c \<noteq> CHR ''='')"

definition dot_plus_end :: "string \<Rightarrow> string option" where
  "dot_plus_end v =
     (let run = takeWhile (\<lambda>c. c \<noteq> CHR 0x0A) v; r = dropWhile (\<lambda>c. c \<noteq> CHR 0x0A) v
      in if run \<noteq> [] \<and> (r = [] \<or> r = [CHR 0x0A]) then Some run else None)"

fun first_some :: "('a \<Rightarrow> 'b option) \<Rightarrow> 'a list \<Rightarrow> 'b option" where
  "first_some f [] = None"
| "first_some f (x # xs) = (case f x of Some y \<Rightarrow> Some y | None \<Rightarrow> first_some f xs)"

definition match_field :: "string \<Rightarrow> (string \<times> string) option" where
  "match_field term =
     (let g1 = takeWhile not_sep term; rest = dropWhile not_sep term in
      if g1 = [] then None
      else case rest of
        [] \<Rightarrow> None
      | sep # after \<Rightarrow>
          (let k = length (takeWhile is_space after)
           in map_option (\<lambda>g2. (g1, g2))
                (first_some (\<lambda>j. dot_plus_end (drop j after)) (rev [0..<Suc k]))))"

text \<open>\<open>_term_predicate\<close>: the closure it returns is a function from rows to truth values.\<close>

definition term_predicate :: "string \<Rightarrow> row \<Rightarrow> bool" where
  "term_predicate term0 =
     (let term = strip_quotes term0 in
      case match_field term of
        Some (g1, g2) \<Rightarrow>
          (let field = py_strip g1; pat = strip_quotes (py_strip g2)
           in (\<lambda>row. match_value (row_get row field) pat))
      | None \<Rightarrow>
          (let pat = term
           in (\<lambda>row. list_ex (\<lambda>v. match_value v pat) (row_values row))))"

text \<open>
  \<open>_to_rpn\<close>. \<open>out\<close> is the output list; \<open>opstack\<close> is kept with its top (Python's
  \<open>opstack[-1]\<close>) at the head of the list.
\<close>

definition norm :: "string \<Rightarrow> string" where
  "norm t = (let u = py_upper t in if u = ''AND'' \<or> u = ''OR'' \<or> u = ''NOT'' then u else t)"

definition prec :: "string \<Rightarrow> nat option" where
  "prec t = (if t = ''NOT'' then Some 3 else if t = ''AND'' then Some 2
             else if t = ''OR'' then Some 1 else None)"

text \<open>\<open>while opstack and opstack[-1] != "(": out.append(opstack.pop())\<close>\<close>

fun pop_to_paren :: "string list \<Rightarrow> string list \<Rightarrow> string list \<times> string list" where
  "pop_to_paren out [] = (out, [])"
| "pop_to_paren out (tp # ops) =
     (if tp \<noteq> ''('' then pop_to_paren (out @ [tp]) ops else (out, tp # ops))"

text \<open>
  \<open>while opstack and opstack[-1] in prec and prec[opstack[-1]] >= prec[t]:
  out.append(opstack.pop())\<close>, for an operator \<open>t\<close>.
\<close>

fun pop_prec :: "string \<Rightarrow> string list \<Rightarrow> string list \<Rightarrow> string list \<times> string list" where
  "pop_prec t out [] = (out, [])"
| "pop_prec t out (tp # ops) =
     (case (prec tp, prec t) of
        (Some q, Some p) \<Rightarrow> if q \<ge> p then pop_prec t (out @ [tp]) ops else (out, tp # ops)
      | _ \<Rightarrow> (out, tp # ops))"

definition rpn_step :: "string list \<times> string list \<Rightarrow> string \<Rightarrow> string list \<times> string list" where
  "rpn_step st raw =
     (let (out, opstack) = st; t = norm raw in
      if t = ''('' then (out, t # opstack)
      else if t = '')'' then
        (let (out', ops') = pop_to_paren out opstack in
         case ops' of
           [] \<Rightarrow> (out', [])
         | tp # rest \<Rightarrow> if tp = ''('' then (out', rest) else (out', ops'))
      else if t = ''AND'' \<or> t = ''OR'' \<or> t = ''NOT'' then
        (let (out', ops') = pop_prec t out opstack in (out', t # ops'))
      else (out @ [raw], opstack))"

definition to_rpn :: "string list \<Rightarrow> string list" where
  "to_rpn tokens = (let (out, opstack) = foldl rpn_step ([], []) tokens in out @ opstack)"

text \<open>
  \<open>_compile_query\<close>. \<open>preds\<close> is kept with its top (\<open>preds[-1]\<close>) at the head.
  \<open>list.pop()\<close> raises \<open>IndexError\<close> on an empty list.
\<close>

definition py_pop :: "'a list \<Rightarrow> error + ('a \<times> 'a list)" where
  "py_pop xs = (case xs of [] \<Rightarrow> Inl IndexError | x # rest \<Rightarrow> Inr (x, rest))"

definition always_true :: "row \<Rightarrow> bool" where
  "always_true = (\<lambda>row. True)"

definition compile_step :: "(row \<Rightarrow> bool) list \<Rightarrow> string \<Rightarrow> error + (row \<Rightarrow> bool) list" where
  "compile_step preds tok =
     (let u = py_upper tok in
      if u = ''NOT'' then
        (if preds = [] then Inr (always_true # preds)
         else case py_pop preds of
                Inl e \<Rightarrow> Inl e
              | Inr (a, preds1) \<Rightarrow> Inr ((\<lambda>row. \<not> a row) # preds1))
      else if u = ''AND'' \<or> u = ''OR'' then
        (if length preds < 2 then Inr (always_true # preds)
         else case py_pop preds of
                Inl e \<Rightarrow> Inl e
              | Inr (b, preds1) \<Rightarrow>
           (case py_pop preds1 of
                Inl e \<Rightarrow> Inl e
              | Inr (a, preds2) \<Rightarrow>
                  if u = ''AND'' then Inr ((\<lambda>row. a row \<and> b row) # preds2)
                  else Inr ((\<lambda>row. a row \<or> b row) # preds2)))
      else Inr (term_predicate tok # preds))"

fun compile_rpn :: "string list \<Rightarrow> (row \<Rightarrow> bool) list \<Rightarrow> error + (row \<Rightarrow> bool) list" where
  "compile_rpn [] preds = Inr preds"
| "compile_rpn (tok # rpn) preds =
     (case compile_step preds tok of Inl e \<Rightarrow> Inl e | Inr preds' \<Rightarrow> compile_rpn rpn preds')"

definition compile_query :: "string \<Rightarrow> error + (row \<Rightarrow> bool) option" where
  "compile_query q0 =
     (let q = py_strip q0 in
      if q = [] then Inr None
      else let toks = tokenize q in
      if toks = [] then Inr None
      else let rpn = to_rpn toks in
      case compile_rpn rpn [] of
        Inl e \<Rightarrow> Inl e
      | Inr preds \<Rightarrow>
          (case preds of [] \<Rightarrow> Inr None | tp # rest \<Rightarrow> Inr (Some tp)))"

text \<open>The compiled query applied to a row; \<open>None\<close> for an error or for no predicate.\<close>

definition run_query :: "string \<Rightarrow> row \<Rightarrow> bool option" where
  "run_query q row = (case compile_query q of Inr (Some p) \<Rightarrow> Some (p row) | _ \<Rightarrow> None)"

text \<open>
  \<open>get_log\<close>. The merged file is its text as \<open>open(..., "r")\<close> delivers it. Iterating
  over the file yields each line with its newline (the last line may have none);
  \<open>file_lines\<close> are these lines.
\<close>

fun file_lines_from :: "string \<Rightarrow> string \<Rightarrow> string list" where
  "file_lines_from cur [] = (if cur = [] then [] else [cur])"
| "file_lines_from cur (c # cs) =
     (if c = CHR 0x0A then (cur @ [c]) # file_lines_from [] cs else file_lines_from (cur @ [c]) cs)"

definition file_lines :: "string \<Rightarrow> string list" where
  "file_lines text = file_lines_from [] text"

text \<open>\<open>line.rstrip("\n")\<close> and \<open>line.split("\t")\<close>.\<close>

definition rstrip_newlines :: "string \<Rightarrow> string" where
  "rstrip_newlines s = rev (dropWhile (\<lambda>c. c = CHR 0x0A) (rev s))"

fun split_on :: "char \<Rightarrow> string \<Rightarrow> string list" where
  "split_on sep [] = [[]]"
| "split_on sep (c # cs) =
     (if c = sep then [] # split_on sep cs
      else (case split_on sep cs of [] \<Rightarrow> [[c]] | p # ps \<Rightarrow> (c # p) # ps))"

text \<open>
  \<open>{fields[i]: parts[i] for i in range(len(fields))}\<close>: a repeated field name keeps its
  first position and takes the last value.
\<close>

definition make_row :: "string list \<Rightarrow> string list \<Rightarrow> row" where
  "make_row flds parts = foldl (\<lambda>d (k, v). AList.update k v d) [] (zip flds parts)"

text \<open>
  The state of the reading loop: \<open>fields\<close> (\<open>None\<close> until a \<open>#fields\<close> line or the first
  data line), \<open>header_meta\<close> and \<open>all_rows\<close>.
\<close>

record log_state =
  ls_fields :: "string list option"
  header_meta :: "string list"
  all_rows :: "row list"

definition read_line :: "(row \<Rightarrow> bool) option \<Rightarrow> log_state \<Rightarrow> string \<Rightarrow> log_state" where
  "read_line pred st line0 =
     (let line = rstrip_newlines line0 in
      if startswith line ''#'' then
        (let st1 = st\<lparr>header_meta := header_meta st @ [line]\<rparr> in
         if startswith line ''#fields'' then
           (let parts = split_on (CHR 0x09) line in st1\<lparr>ls_fields := Some (tl parts)\<rparr>)
         else st1)
      else
        (let (flds, row) =
           (case ls_fields st of
              None \<Rightarrow> ([''_raw''], [(''_raw'', line)])
            | Some flds \<Rightarrow>
                (let parts = split_on (CHR 0x09) line;
                     parts = (if length parts < length flds
                              then parts @ replicate (length flds - length parts) [] else parts);
                     parts = take (length flds) parts
                 in (flds, make_row flds parts)));
             st1 = st\<lparr>ls_fields := Some flds\<rparr>
         in if (case pred of None \<Rightarrow> True | Some p \<Rightarrow> p row)
            then st1\<lparr>all_rows := all_rows st1 @ [row]\<rparr> else st1))"

text \<open>The JSON body of the response.\<close>

record log_response =
  r_fields :: "string list"
  r_offset :: int
  r_limit :: int
  r_total :: nat
  r_rows :: "row list"
  r_header :: "string list"
  r_q :: string

text \<open>
  \<open>get_log\<close> on the text of \<open>merged/<log_name>\<close>, or \<open>None\<close> when the file does not
  exist. A query that fails to compile would propagate its error.
\<close>

definition get_log :: "string option \<Rightarrow> int \<Rightarrow> int \<Rightarrow> string \<Rightarrow> error + log_response" where
  "get_log merged offset0 limit0 q =
     (case merged of
        None \<Rightarrow> Inl HTTP404
      | Some text \<Rightarrow>
     (case compile_query q of
        Inl e \<Rightarrow> Inl e
      | Inr pred \<Rightarrow>
     (let st = foldl (read_line pred) \<lparr>ls_fields = None, header_meta = [], all_rows = []\<rparr>
                 (file_lines text);
          total = length (all_rows st);
          offset = (if offset0 < 0 then 0 else offset0);
          limit = (if limit0 < 1 then 1 else limit0);
          limit = (if limit > 5000 then 5000 else limit);
          page = py_slice (all_rows st) (nat offset) (nat (offset + limit))
      in Inr \<lparr>r_fields = (case ls_fields st of None \<Rightarrow> [] | Some fs \<Rightarrow> fs),
              r_offset = offset, r_limit = limit, r_total = total, r_rows = page,
              r_header = header_meta st, r_q = q\<rparr>)))"

text \<open>The query \<open>f:"foo bar"\<close>, and a quoted value alone.\<close>

definition ex_quoted_query :: string where
  "ex_quoted_query = ''f:'' @ [CHR 0x22] @ ''foo bar'' @ [CHR 0x22]"

definition ex_quoted_value :: string where
  "ex_quoted_value = [CHR 0x22] @ ''foo bar'' @ [CHR 0x22]"

text \<open>The rows of a log text, decoded as \<open>get_log\<close> decodes them when there is no predicate.\<close>

definition decoded_rows :: "string \<Rightarrow> row list" where
  "decoded_rows text =
     all_rows (foldl (read_line None) \<lparr>ls_fields = None, header_meta = [], all_rows = []\<rparr>
                 (file_lines text))"

text \<open>
  The text of a file written line by line with \<open>out.write(line + "\n")\<close>, as
  \<open>merge_worker_logs\<close> and \<open>write_worker_map_log\<close> write their logs.
\<close>

definition written_lines :: "string list \<Rightarrow> string" where
  "written_lines ls = concat (map (\<lambda>l. l @ [CHR 0x0A]) ls)"

text \<open>The lines of a small merged log: a \<open>#fields\<close> header and two rows.\<close>

definition ex_log_lines :: "string list" where
  "ex_log_lines = [''#fields'' @ [CHR 0x09] @ ''ts'', ''1.0'', ''2.0'']"

text \<open>
  An operator token that finds too few operands on the stack \<open>preds\<close>: \<open>NOT\<close> on an empty
  stack, \<open>AND\<close> or \<open>OR\<close> on fewer than two predicates.
\<close>

definition too_few_operands :: "string \<Rightarrow> (row \<Rightarrow> bool) list \<Rightarrow> bool" where
  "too_few_operands tok preds =
     ((py_upper tok = ''NOT'' \<and> preds = []) \<or>
      ((py_upper tok = ''AND'' \<or> py_upper tok = ''OR'') \<and> length preds < 2))"

section \<open>merge_logs.py: the merged log\<close>

text \<open>
  \<open>_read_zeek_log\<close> on the text of one log: the header lines, the field list of the last
  \<open>#fields\<close> line and the rows, each the tab-separated parts of a non-empty data line.
\<close>

definition zeek_line ::
  "string list \<times> string list \<times> string list list \<Rightarrow> string \<Rightarrow>
   string list \<times> string list \<times> string list list" where
  "zeek_line st line0 =
     (let (header_lines, flds, rows) = st; line = rstrip_newlines line0 in
      if startswith line ''#'' then
        (header_lines @ [line],
         (if startswith line ''#fields'' then tl (split_on (CHR 0x09) line) else flds), rows)
      else if line = [] then (header_lines, flds, rows)
      else (header_lines, flds, rows @ [split_on (CHR 0x09) line]))"

definition read_zeek_log :: "string \<Rightarrow> string list \<times> string list \<times> string list list" where
  "read_zeek_log text = foldl zeek_line ([], [], []) (file_lines text)"

text \<open>\<open>_ts_index\<close>: \<open>fields.index("ts")\<close>, or \<open>None\<close>.\<close>

fun ts_index :: "string list \<Rightarrow> nat option" where
  "ts_index [] = None"
| "ts_index (f # fs) = (if f = ''ts'' then Some 0 else map_option Suc (ts_index fs))"

text \<open>
  The body of the loop of \<open>merge_worker_logs\<close> for one log name: \<open>texts\<close> are the texts of
  the workers' logs of that name, in the order of \<open>paths\<close> (never empty), and the result is
  the text of the merged log. \<open>sort_by_ts ts_i\<close> stands for the call
  \<open>all_rows.sort(key=_ts_val)\<close>; its keys and what the sort promises are modelled below.
\<close>

definition merge_one_log ::
  "(nat \<Rightarrow> string list list \<Rightarrow> string list list) \<Rightarrow> string list \<Rightarrow> string" where
  "merge_one_log sort_by_ts texts =
     (let (first_header, first_fields, first_rows) = read_zeek_log (hd texts);
          ts_i = ts_index first_fields;
          all_rows = concat (map (\<lambda>t. snd (snd (read_zeek_log t))) texts);
          all_rows = (case ts_i of None \<Rightarrow> all_rows | Some i \<Rightarrow> sort_by_ts i all_rows)
      in written_lines (first_header @ map (join [CHR 0x09]) all_rows))"

text \<open>A line the merger can write back: not empty and without a newline.\<close>

definition plain_line :: "string \<Rightarrow> bool" where
  "plain_line l = (l \<noteq> [] \<and> CHR 0x0A \<notin> set l)"

text \<open>
  The keys of \<open>all_rows.sort(key=_ts_val)\<close> are Python floats. A float is a number or
  NaN; the numbers (the infinities among them) are linearly ordered and are kept abstract
  as a type \<open>'a\<close> with a zero for \<open>0.0\<close>. Python's \<open><\<close> and \<open><=\<close> on floats are false
  whenever one side is NaN.
\<close>

datatype 'a pyfloat = Num 'a | NaN

fun float_lt :: "('a::linorder) pyfloat \<Rightarrow> 'a pyfloat \<Rightarrow> bool" where
  "float_lt (Num a) (Num b) = (a < b)"
| "float_lt x y = False"

fun float_le :: "('a::linorder) pyfloat \<Rightarrow> 'a pyfloat \<Rightarrow> bool" where
  "float_le (Num a) (Num b) = (a \<le> b)"
| "float_le x y = False"

fun num_of :: "('a::zero) pyfloat \<Rightarrow> 'a" where
  "num_of (Num a) = a"
| "num_of NaN = 0"

text \<open>
  \<open>_ts_val\<close>, the sort key of a row. \<open>float\<close> is the built-in's; it is a parameter
  \<open>py_float\<close> that returns \<open>None\<close> where \<open>float(s)\<close> raises.
\<close>

definition ts_val ::
  "(string \<Rightarrow> ('a::zero) pyfloat option) \<Rightarrow> nat \<Rightarrow> string list \<Rightarrow> 'a pyfloat" where
  "ts_val py_float ts_i r =
     (if ts_i \<ge> length r then Num 0
      else case py_float (r ! ts_i) of Some v \<Rightarrow> v | None \<Rightarrow> Num 0)"

text \<open>
  \<open>list.sort(key=...)\<close> is the built-in's too, a parameter \<open>list_sort\<close>. What Python
  promises of it is \<open>sort_contract\<close>: on keys that \<open><\<close> orders linearly (here: no NaN among
  them) the result is the stable sort by the key.
\<close>

definition sort_contract ::
  "((string list \<Rightarrow> ('a::{linorder,zero}) pyfloat) \<Rightarrow> string list list \<Rightarrow> string list list) \<Rightarrow> bool" where
  "sort_contract list_sort =
     (\<forall>key xs. (\<forall>x \<in> set xs. key x \<noteq> NaN) \<longrightarrow>
        list_sort key xs = sort_key (\<lambda>x. num_of (key x)) xs)"

text \<open>
  The canonical header lines and field list (those of the first worker's log) and the
  rows of all workers' logs, concatenated in the order of \<open>paths\<close>.
\<close>

definition canonical_header :: "string list \<Rightarrow> string list" where
  "canonical_header texts = fst (read_zeek_log (hd texts))"

definition canonical_fields :: "string list \<Rightarrow> string list" where
  "canonical_fields texts = fst (snd (read_zeek_log (hd texts)))"

definition concat_rows :: "string list \<Rightarrow> string list list" where
  "concat_rows texts = concat (map (\<lambda>t. snd (snd (read_zeek_log t))) texts)"

text \<open>
  For the concrete instances: an insertion sort that, like \<open>list.sort\<close>, compares keys
  with \<open><\<close> only, and the values of \<open>float\<close> on the strings of the examples.
\<close>

fun py_insort :: "('b \<Rightarrow> ('a::linorder) pyfloat) \<Rightarrow> 'b \<Rightarrow> 'b list \<Rightarrow> 'b list" where
  "py_insort key x [] = [x]"
| "py_insort key x (y # ys) =
     (if \<not> float_lt (key y) (key x) then x # y # ys else y # py_insort key x ys)"

definition py_isort :: "('b \<Rightarrow> ('a::linorder) pyfloat) \<Rightarrow> 'b list \<Rightarrow> 'b list" where
  "py_isort key xs = foldr (py_insort key) xs []"

definition ex_float :: "string \<Rightarrow> int pyfloat option" where
  "ex_float s =
     (if s = ''nan'' then Some NaN
      else if s = ''-1'' then Some (Num (- 1))
      else if s = ''1'' then Some (Num 1)
      else if s = ''2'' then Some (Num 2)
      else if s = ''3'' then Some (Num 3)
      else None)"

text \<open>One worker's log with the \<open>ts\<close> values 3, nan, -1, x, 1, 2.\<close>

definition ex_nan_log :: string where
  "ex_nan_log = written_lines [''#fields'' @ [CHR 0x09] @ ''ts'', ''3'', ''nan'', ''-1'', ''x'', ''1'', ''2'']"

text \<open>Two workers' logs, with the \<open>ts\<close> values 3, 1 and 2, x.\<close>

definition ex_worker_logs :: "string list" where
  "ex_worker_logs =
     [written_lines [''#fields'' @ [CHR 0x09] @ ''ts'', ''3'', ''1''],
      written_lines [''#fields'' @ [CHR 0x09] @ ''ts'', ''2'', ''x'']]"

text \<open>A log without a \<open>ts\<close> field.\<close>

definition ex_no_ts_logs :: "string list" where
  "ex_no_ts_logs = [written_lines [''#fields'' @ [CHR 0x09] @ ''uid'', ''b'', ''a'']]"

section \<open>Properties of the sharder\<close>

lemma split_loop_route_all:
  "split_loop sha1 workers data off st = route_all sha1 workers (pcap_records data off) st"
proof (induction sha1 workers data off st rule: split_loop.induct)
  case (1 sha1 workers data off st)
  show ?case
    apply (subst split_loop.simps)
    apply (subst pcap_records.simps)
    apply (auto simp: Let_def split: sum.splits)
    using 1 apply (auto simp: Let_def)
    done
qed

lemma py_index_in_range:
  "0 \<le> i \<Longrightarrow> i < int (length xs) \<Longrightarrow> py_index xs i = Inr (nat i)"
  by (simp add: py_index_def)

lemma shard_index_range:
  "1 \<le> workers \<Longrightarrow> 0 \<le> shard_index sha1 workers pkt \<and> shard_index sha1 workers pkt < workers"
  by (simp add: shard_index_def)

lemma route_packet_outs:
  assumes "1 \<le> workers" "length (outs st) = nat workers"
  shows "\<exists>st'. route_packet sha1 workers h p st = Inr st' \<and>
           outs st' = (outs st)[nat (shard_index sha1 workers p) :=
                          outs st ! nat (shard_index sha1 workers p) @ h @ p]"
proof -
  obtain key rp where kr: "tuple_for_packet p = (key, rp)" by (cases "tuple_for_packet p")
  have idx: "shard_index sha1 workers p = int (hash_key sha1 key) mod workers"
    by (simp add: shard_index_def kr)
  have rng: "0 \<le> int (hash_key sha1 key) mod workers" "int (hash_key sha1 key) mod workers < int (length (outs st))"
    using assms by simp_all
  show ?thesis
    using assms py_index_in_range [OF rng]
    by (simp add: route_packet_def kr py_mod_def idx Let_def split: option.split)
qed

lemma route_all_outs:
  assumes "1 \<le> workers"
  shows "length (outs st) = nat workers \<Longrightarrow>
         \<exists>st'. route_all sha1 workers rs st = Inr st' \<and> length (outs st') = nat workers \<and>
           (\<forall>i < nat workers. outs st' ! i =
               outs st ! i @ concat (map record_bytes
                  (filter (\<lambda>r. shard_index sha1 workers (snd r) = int i) rs)))"
proof (induction rs arbitrary: st)
  case Nil
  then show ?case by simp
next
  case (Cons r rs)
  obtain h p where r: "r = (h, p)" by (cases r)
  from route_packet_outs [OF assms Cons.prems, of sha1 h p]
  obtain st1 where st1: "route_packet sha1 workers h p st = Inr st1"
    and o1: "outs st1 = (outs st)[nat (shard_index sha1 workers p) :=
                          outs st ! nat (shard_index sha1 workers p) @ h @ p]" by blast
  have len1: "length (outs st1) = nat workers" using o1 Cons.prems by simp
  from Cons.IH [OF len1] obtain st' where
    st': "route_all sha1 workers rs st1 = Inr st'" and len': "length (outs st') = nat workers"
    and cont: "\<forall>i < nat workers. outs st' ! i =
               outs st1 ! i @ concat (map record_bytes
                  (filter (\<lambda>r. shard_index sha1 workers (snd r) = int i) rs))" by blast
  have rng: "0 \<le> shard_index sha1 workers p" "shard_index sha1 workers p < workers"
    using shard_index_range [OF assms] by simp_all
  have "\<forall>i < nat workers. outs st' ! i =
               outs st ! i @ concat (map record_bytes
                  (filter (\<lambda>r. shard_index sha1 workers (snd r) = int i) (r # rs)))"
  proof (intro allI impI)
    fix i assume i: "i < nat workers"
    show "outs st' ! i = outs st ! i @ concat (map record_bytes
                  (filter (\<lambda>r. shard_index sha1 workers (snd r) = int i) (r # rs)))"
    proof (cases "shard_index sha1 workers p = int i")
      case True
      then have "nat (shard_index sha1 workers p) = i" by simp
      then show ?thesis using cont i o1 Cons.prems True
        by (simp add: r record_bytes_def)
    next
      case False
      then have "nat (shard_index sha1 workers p) \<noteq> i" using rng by auto
      then show ?thesis using cont i o1 Cons.prems False
        by (simp add: r record_bytes_def)
    qed
  qed
  then show ?case using st1 st' len' by (simp add: r)
qed

lemma record_bytes_pair [simp]: "record_bytes (h, p) = h @ p"
  by (simp add: record_bytes_def)

lemma py_slice_append_mid:
  "py_slice (pre @ h @ rest) (length pre) (length pre + length h) = h"
  by (simp add: py_slice_def)

lemma pcap_records_tail:
  assumes "truncated_tail t"
  shows "pcap_records (pre @ t) (length pre) = []"
proof -
  have "py_slice (py_slice (pre @ t) (length pre) (length pre + 16)) 8 12 = py_slice t 8 12"
    by (simp add: py_slice_def take_drop min_def)
  then show ?thesis
    using assms
    by (subst pcap_records.simps) (auto simp: truncated_tail_def PCAP_PKT_HDR_LEN_def Let_def)
qed

lemma pcap_records_concat:
  assumes "truncated_tail t"
  shows "\<forall>r \<in> set recs. complete_record r \<Longrightarrow>
         pcap_records (pre @ concat (map record_bytes recs) @ t) (length pre) = recs"
proof (induction recs arbitrary: pre)
  case Nil
  then show ?case using pcap_records_tail [OF assms] by simp
next
  case (Cons r recs)
  obtain h p where r: "r = (h, p)" by (cases r)
  from Cons.prems have hl: "length h = 16" and pl: "from_bytes_little (py_slice h 8 12) = length p"
    by (simp_all add: r complete_record_def PCAP_PKT_HDR_LEN_def)
  let ?rest = "concat (map record_bytes recs) @ t"
  let ?data = "pre @ h @ p @ ?rest"
  have hdr: "py_slice ?data (length pre) (length pre + 16) = h"
    using py_slice_append_mid [of pre h "p @ ?rest"] hl by simp
  have pay: "py_slice ?data (length pre + 16) (length pre + 16 + length p) = p"
    using py_slice_append_mid [of "pre @ h" p ?rest] hl by simp
  have ih: "pcap_records ((pre @ h @ p) @ ?rest) (length (pre @ h @ p)) = recs"
    using Cons.IH [of "pre @ h @ p"] Cons.prems by simp
  have "pcap_records ?data (length pre) = (h, p) # pcap_records ?data (length pre + 16 + length p)"
    by (subst pcap_records.simps) (simp add: PCAP_PKT_HDR_LEN_def Let_def hdr pl pay hl)
  then show ?case using ih hl by (simp add: r add.assoc)
qed

lemma pcap_records_complete:
  "\<forall>r \<in> set (pcap_records data off). complete_record r"
proof (induction data off rule: pcap_records.induct)
  case (1 data off)
  let ?hdr = "py_slice data off (off + PCAP_PKT_HDR_LEN)"
  let ?len = "from_bytes_little (py_slice ?hdr 8 12)"
  let ?end = "off + PCAP_PKT_HDR_LEN + ?len"
  show ?case
  proof (cases "off + PCAP_PKT_HDR_LEN \<le> length data \<and> \<not> ?end > length data")
    case True
    then have ih: "\<forall>r \<in> set (pcap_records data ?end). complete_record r"
      using 1 [OF _ refl refl refl refl] by simp
    have rec: "pcap_records data off =
        (?hdr, py_slice data (off + PCAP_PKT_HDR_LEN) ?end) # pcap_records data ?end"
      using True by (subst pcap_records.simps) (simp add: Let_def)
    have "complete_record (?hdr, py_slice data (off + PCAP_PKT_HDR_LEN) ?end)"
      using True by (auto simp: complete_record_def py_slice_def PCAP_PKT_HDR_LEN_def min_def)
    then show ?thesis using ih rec by simp
  next
    case False
    then have "pcap_records data off = []"
      by (subst pcap_records.simps) (auto simp: Let_def)
    then show ?thesis by simp
  qed
qed

lemma route_packet_flow_map:
  assumes "1 \<le> workers" "length (outs st) = nat workers"
    and "route_packet sha1 workers h p st = Inr st'"
  shows "map_of (flow_map st') =
           (map_of (flow_map st))(fst (tuple_for_packet p) \<mapsto>
              (case map_of (flow_map st) (fst (tuple_for_packet p)) of
                 None \<Rightarrow>
                   \<lparr>ip_ver = ip_ver (snd (tuple_for_packet p)),
                    src_ip = src_ip (snd (tuple_for_packet p)),
                    dst_ip = dst_ip (snd (tuple_for_packet p)),
                    src_port = src_port (snd (tuple_for_packet p)),
                    dst_port = dst_port (snd (tuple_for_packet p)),
                    proto = proto (snd (tuple_for_packet p)),
                    worker = shard_index sha1 workers p + 1, pkt_count = 1\<rparr>
               | Some r \<Rightarrow> r\<lparr>pkt_count := pkt_count r + 1\<rparr>))"
proof -
  obtain key rp where kr: "tuple_for_packet p = (key, rp)" by (cases "tuple_for_packet p")
  have rng: "0 \<le> int (hash_key sha1 key) mod workers"
    "int (hash_key sha1 key) mod workers < int (length (outs st))"
    using assms(1,2) by simp_all
  show ?thesis
    using assms py_index_in_range [OF rng]
    by (auto simp: route_packet_def kr py_mod_def shard_index_def Let_def update_conv'
             split: option.splits)
qed

lemma route_all_flow_map:
  assumes "1 \<le> workers"
  shows "length (outs st) = nat workers \<Longrightarrow> route_all sha1 workers rs st = Inr st' \<Longrightarrow>
         map_option (\<lambda>r. (worker r, pkt_count r)) (map_of (flow_map st') k) =
           (case map_of (flow_map st) k of
              None \<Rightarrow> (if key_count k rs = 0 then None
                        else Some (key_shard sha1 workers k + 1, key_count k rs))
            | Some r \<Rightarrow> Some (worker r, pkt_count r + key_count k rs))"
proof (induction rs arbitrary: st)
  case Nil
  then show ?case by (simp add: key_count_def split: option.split)
next
  case (Cons r rs)
  obtain h p where r: "r = (h, p)" by (cases r)
  from route_packet_outs [OF assms Cons.prems(1), of sha1 h p]
  obtain st1 where st1: "route_packet sha1 workers h p st = Inr st1"
    and o1: "outs st1 = (outs st)[nat (shard_index sha1 workers p) :=
                          outs st ! nat (shard_index sha1 workers p) @ h @ p]" by blast
  have len1: "length (outs st1) = nat workers" using o1 Cons.prems by simp
  have rest: "route_all sha1 workers rs st1 = Inr st'"
    using Cons.prems(2) st1 by (simp add: r)
  note ih = Cons.IH [OF len1 rest]
  note fm = route_packet_flow_map [OF assms Cons.prems(1) st1]
  show ?case
  proof (cases "fst (tuple_for_packet p) = k")
    case True
    then have sh: "shard_index sha1 workers p = key_shard sha1 workers k"
      by (simp add: shard_index_def key_shard_def)
    have cnt: "key_count k (r # rs) = Suc (key_count k rs)"
      using True by (simp add: key_count_def r)
    show ?thesis using ih fm True
      by (simp add: cnt sh split: option.splits)
  next
    case False
    have cnt: "key_count k (r # rs) = key_count k rs"
      using False by (simp add: key_count_def r)
    show ?thesis using ih fm False
      by (simp add: cnt split: option.splits)
  qed
qed

lemma split_pcap_flowhash_short:
  "length data < PCAP_GLOBAL_HDR_LEN \<Longrightarrow> split_pcap_flowhash sha1 data workers = Inl ValueError"
  by (simp add: split_pcap_flowhash_def Let_def)

lemma split_pcap_flowhash_ok:
  assumes "1 \<le> workers" "PCAP_GLOBAL_HDR_LEN \<le> length data"
  shows "\<exists>res st. split_pcap_flowhash sha1 data workers = Inr res \<and>
           route_all sha1 workers (pcap_records data PCAP_GLOBAL_HDR_LEN)
             \<lparr>outs = replicate (nat workers) (take PCAP_GLOBAL_HDR_LEN data), flow_map = []\<rparr> = Inr st \<and>
           shard_files res = outs st \<and> flows res = flow_map st \<and>
           length (shard_files res) = nat workers \<and>
           (\<forall>i < nat workers. shard_files res ! i =
               take PCAP_GLOBAL_HDR_LEN data @ concat (map record_bytes
                  (filter (\<lambda>r. shard_index sha1 workers (snd r) = int i)
                     (pcap_records data PCAP_GLOBAL_HDR_LEN))))"
proof -
  let ?st0 = "\<lparr>outs = replicate (nat workers) (take PCAP_GLOBAL_HDR_LEN data), flow_map = []\<rparr>"
  have len0: "length (outs ?st0) = nat workers" by simp
  from route_all_outs [OF assms(1) len0, of sha1 "pcap_records data PCAP_GLOBAL_HDR_LEN"]
  obtain st where st: "route_all sha1 workers (pcap_records data PCAP_GLOBAL_HDR_LEN) ?st0 = Inr st"
    and len: "length (outs st) = nat workers"
    and cont: "\<forall>i < nat workers. outs st ! i =
               outs ?st0 ! i @ concat (map record_bytes
                  (filter (\<lambda>r. shard_index sha1 workers (snd r) = int i)
                    (pcap_records data PCAP_GLOBAL_HDR_LEN)))" by blast
  have "split_pcap_flowhash sha1 data workers =
          Inr \<lparr>shard_files = outs st, flows = flow_map st,
               worker_map_log = write_worker_map_log (sort_key row_key (map snd (flow_map st)))\<rparr>"
    using assms(2) st
    by (simp add: split_pcap_flowhash_def Let_def split_loop_route_all py_slice_def)
  then show ?thesis using st len cont by simp
qed

lemma shard_index_unique:
  assumes "1 \<le> workers"
  shows "\<exists>!i. i < nat workers \<and> shard_index sha1 workers pkt = int i"
proof -
  from shard_index_range [OF assms, of sha1 pkt]
  have rng: "0 \<le> shard_index sha1 workers pkt" "shard_index sha1 workers pkt < workers"
    by simp_all
  show ?thesis
  proof (rule ex1I [of _ "nat (shard_index sha1 workers pkt)"])
    show "nat (shard_index sha1 workers pkt) < nat workers \<and>
          shard_index sha1 workers pkt = int (nat (shard_index sha1 workers pkt))"
      using rng by simp
  next
    fix i assume "i < nat workers \<and> shard_index sha1 workers pkt = int i"
    then show "i = nat (shard_index sha1 workers pkt)" by simp
  qed
qed

text \<open>
  C2. A capture made of a 24-byte global header, complete packet records and a truncated
  rest is split so that each shard file is the global header followed by the records routed
  to that shard, byte for byte and in the capture's order; every record is routed to exactly
  one shard.
\<close>

theorem split_writes_every_record_once:
  assumes "1 \<le> workers"
    and "length ghdr = PCAP_GLOBAL_HDR_LEN"
    and "\<forall>r \<in> set recs. complete_record r"
    and "truncated_tail t"
  shows "\<exists>res. split_pcap_flowhash sha1 (ghdr @ concat (map record_bytes recs) @ t) workers = Inr res \<and>
           length (shard_files res) = nat workers \<and>
           (\<forall>i < nat workers. shard_files res ! i =
               ghdr @ concat (map record_bytes
                  (filter (\<lambda>r. shard_index sha1 workers (snd r) = int i) recs))) \<and>
           (\<forall>r \<in> set recs. \<exists>!i. i < nat workers \<and> shard_index sha1 workers (snd r) = int i)"
proof -
  let ?data = "ghdr @ concat (map record_bytes recs) @ t"
  have len: "PCAP_GLOBAL_HDR_LEN \<le> length ?data" using assms(2) by simp
  have recs: "pcap_records ?data PCAP_GLOBAL_HDR_LEN = recs"
    using pcap_records_concat [OF assms(4) assms(3), of ghdr] assms(2) by simp
  have hdr: "take PCAP_GLOBAL_HDR_LEN ?data = ghdr" using assms(2) by simp
  from split_pcap_flowhash_ok [OF assms(1) len, of sha1]
  obtain res where "split_pcap_flowhash sha1 ?data workers = Inr res"
    "length (shard_files res) = nat workers"
    "\<forall>i < nat workers. shard_files res ! i =
               take PCAP_GLOBAL_HDR_LEN ?data @ concat (map record_bytes
                  (filter (\<lambda>r. shard_index sha1 workers (snd r) = int i)
                     (pcap_records ?data PCAP_GLOBAL_HDR_LEN)))"
    by blast
  then show ?thesis
    using shard_index_unique [OF assms(1), of sha1] unfolding recs hdr by blast
qed

text \<open>
  C1. For \<open>N \<ge> 1\<close> the shard index of a key is the first 8 bytes of its digest, read
  big-endian, modulo \<open>N\<close>; shard file \<open>i\<close> holds exactly the capture's packets whose key has
  index \<open>i\<close>, so packets with one key share a file; and the flow map records worker
  \<open>index + 1\<close> and the number of packets for every key seen.
\<close>

theorem shard_is_function_of_key:
  assumes "1 \<le> workers" and "PCAP_GLOBAL_HDR_LEN \<le> length data"
  shows "\<exists>res. split_pcap_flowhash sha1 data workers = Inr res \<and>
           (\<forall>i < nat workers. pcap_records (shard_files res ! i) PCAP_GLOBAL_HDR_LEN =
               filter (\<lambda>r. key_shard sha1 workers (fst (tuple_for_packet (snd r))) = int i)
                 (pcap_records data PCAP_GLOBAL_HDR_LEN)) \<and>
           (\<forall>r \<in> set (pcap_records data PCAP_GLOBAL_HDR_LEN).
               \<exists>fr. map_of (flows res) (fst (tuple_for_packet (snd r))) = Some fr \<and>
                 worker fr = key_shard sha1 workers (fst (tuple_for_packet (snd r))) + 1 \<and>
                 pkt_count fr = key_count (fst (tuple_for_packet (snd r)))
                                  (pcap_records data PCAP_GLOBAL_HDR_LEN)) \<and>
           (\<forall>k. key_shard sha1 workers k = int (from_bytes_big (take 8 (sha1 k))) mod workers)"
proof -
  let ?recs = "pcap_records data PCAP_GLOBAL_HDR_LEN"
  let ?hdr = "take PCAP_GLOBAL_HDR_LEN data"
  let ?st0 = "\<lparr>outs = replicate (nat workers) ?hdr, flow_map = []\<rparr>"
  from split_pcap_flowhash_ok [OF assms, of sha1]
  obtain res st where res: "split_pcap_flowhash sha1 data workers = Inr res"
    and st: "route_all sha1 workers ?recs ?st0 = Inr st"
    and fl: "flows res = flow_map st"
    and files: "\<forall>i < nat workers. shard_files res ! i =
               ?hdr @ concat (map record_bytes
                  (filter (\<lambda>r. shard_index sha1 workers (snd r) = int i) ?recs))"
    by blast
  have hl: "length ?hdr = PCAP_GLOBAL_HDR_LEN" using assms(2) by simp
  have same: "shard_index sha1 workers (snd r) = key_shard sha1 workers (fst (tuple_for_packet (snd r)))"
    for r by (simp add: shard_index_def key_shard_def)
  have part1: "\<forall>i < nat workers. pcap_records (shard_files res ! i) PCAP_GLOBAL_HDR_LEN =
               filter (\<lambda>r. key_shard sha1 workers (fst (tuple_for_packet (snd r))) = int i) ?recs"
  proof (intro allI impI)
    fix i assume i: "i < nat workers"
    let ?sel = "filter (\<lambda>r. shard_index sha1 workers (snd r) = int i) ?recs"
    have c: "\<forall>r \<in> set ?sel. complete_record r"
      using pcap_records_complete [of data PCAP_GLOBAL_HDR_LEN] by simp
    have t: "truncated_tail []" by (simp add: truncated_tail_def PCAP_PKT_HDR_LEN_def)
    have "pcap_records (?hdr @ concat (map record_bytes ?sel) @ []) (length ?hdr) = ?sel"
      by (rule pcap_records_concat [OF t c])
    then show "pcap_records (shard_files res ! i) PCAP_GLOBAL_HDR_LEN =
               filter (\<lambda>r. key_shard sha1 workers (fst (tuple_for_packet (snd r))) = int i) ?recs"
      using files i hl by (simp add: same)
  qed
  have part2: "\<forall>r \<in> set ?recs.
               \<exists>fr. map_of (flows res) (fst (tuple_for_packet (snd r))) = Some fr \<and>
                 worker fr = key_shard sha1 workers (fst (tuple_for_packet (snd r))) + 1 \<and>
                 pkt_count fr = key_count (fst (tuple_for_packet (snd r))) ?recs"
  proof
    fix r assume r: "r \<in> set ?recs"
    let ?k = "fst (tuple_for_packet (snd r))"
    have "filter (\<lambda>x. fst (tuple_for_packet (snd x)) = ?k) ?recs \<noteq> []"
      using r by (auto simp: filter_empty_conv)
    then have pos: "key_count ?k ?recs \<noteq> 0" by (simp add: key_count_def)
    have len0: "length (outs ?st0) = nat workers" by simp
    from route_all_flow_map [OF assms(1) len0 st, of ?k] pos
    show "\<exists>fr. map_of (flows res) ?k = Some fr \<and>
                 worker fr = key_shard sha1 workers ?k + 1 \<and>
                 pkt_count fr = key_count ?k ?recs"
      by (auto simp: fl)
  qed
  have part3: "\<forall>k. key_shard sha1 workers k = int (from_bytes_big (take 8 (sha1 k))) mod workers"
    by (simp add: key_shard_def hash_key_def)
  show ?thesis using res part1 part2 part3 by blast
qed

text \<open>
  C3, as amended. For \<open>N \<ge> 1\<close>: a capture shorter than the global header raises
  \<open>ValueError\<close>, any other capture is split without an error, and a truncated rest after
  the last complete record changes nothing in the result.
\<close>

theorem split_raises_iff_short:
  assumes "1 \<le> workers"
  shows "(length data < PCAP_GLOBAL_HDR_LEN \<longrightarrow> split_pcap_flowhash sha1 data workers = Inl ValueError) \<and>
         (PCAP_GLOBAL_HDR_LEN \<le> length data \<longrightarrow> (\<exists>res. split_pcap_flowhash sha1 data workers = Inr res)) \<and>
         (length ghdr = PCAP_GLOBAL_HDR_LEN \<and> (\<forall>r \<in> set recs. complete_record r) \<and> truncated_tail t \<longrightarrow>
            split_pcap_flowhash sha1 (ghdr @ concat (map record_bytes recs) @ t) workers =
            split_pcap_flowhash sha1 (ghdr @ concat (map record_bytes recs)) workers)"
proof (intro conjI impI)
  assume "length data < PCAP_GLOBAL_HDR_LEN"
  then show "split_pcap_flowhash sha1 data workers = Inl ValueError"
    by (rule split_pcap_flowhash_short)
next
  assume "PCAP_GLOBAL_HDR_LEN \<le> length data"
  from split_pcap_flowhash_ok [OF assms this, of sha1]
  show "\<exists>res. split_pcap_flowhash sha1 data workers = Inr res" by blast
next
  assume a: "length ghdr = PCAP_GLOBAL_HDR_LEN \<and> (\<forall>r \<in> set recs. complete_record r) \<and> truncated_tail t"
  have t0: "truncated_tail []" by (simp add: truncated_tail_def PCAP_PKT_HDR_LEN_def)
  have r1: "pcap_records (ghdr @ concat (map record_bytes recs) @ t) PCAP_GLOBAL_HDR_LEN = recs"
    using pcap_records_concat [of t recs ghdr] a by simp
  have r2: "pcap_records (ghdr @ concat (map record_bytes recs)) PCAP_GLOBAL_HDR_LEN = recs"
    using pcap_records_concat [OF t0, of recs ghdr] a by simp
  show "split_pcap_flowhash sha1 (ghdr @ concat (map record_bytes recs) @ t) workers =
        split_pcap_flowhash sha1 (ghdr @ concat (map record_bytes recs)) workers"
    using a by (simp add: split_pcap_flowhash_def Let_def split_loop_route_all r1 r2 py_slice_def)
qed

lemma ex_complete: "complete_record ex_rec_a" "complete_record ex_rec_b"
  by (simp_all add: complete_record_def ex_rec_a_def ex_rec_b_def PCAP_PKT_HDR_LEN_def py_slice_def)

lemma ex_tail_truncated: "truncated_tail ex_tail"
  by (simp add: truncated_tail_def ex_tail_def PCAP_PKT_HDR_LEN_def)

lemma ex_ghdr_length: "length ex_ghdr = PCAP_GLOBAL_HDR_LEN"
  by (simp add: ex_ghdr_def PCAP_GLOBAL_HDR_LEN_def)

lemma short_packet_key:
  "length pkt < 34 \<Longrightarrow> fst (tuple_for_packet pkt) = 88 # take 64 pkt"
  by (simp add: tuple_for_packet_def ipv4_tuple_def ipv6_tuple_def byte_of_char_def)

lemma ex_keys:
  "fst (tuple_for_packet (snd ex_rec_a)) = [88, 1, 2]"
  "fst (tuple_for_packet (snd ex_rec_b)) = [88, 7]"
  by (simp_all add: short_packet_key ex_rec_a_def ex_rec_b_def)

lemma ex_shards:
  "shard_index id 2 (snd ex_rec_a) = 0" "shard_index id 2 (snd ex_rec_b) = 1"
  by (simp_all add: shard_index_def ex_keys hash_key_def from_bytes_big_def)

lemma ex_key_shards:
  "key_shard id 2 [88, 1, 2] = 0" "key_shard id 2 [88, 7] = 1"
  by (simp_all add: key_shard_def hash_key_def from_bytes_big_def)

theorem split_writes_every_record_once_witness:
  "(1::int) \<le> 2 \<and> length ex_ghdr = PCAP_GLOBAL_HDR_LEN \<and> complete_record ex_rec_a \<and>
   complete_record ex_rec_b \<and> truncated_tail ex_tail \<and>
   (\<exists>res. split_pcap_flowhash id
             (ex_ghdr @ concat (map record_bytes [ex_rec_a, ex_rec_b]) @ ex_tail) 2 = Inr res \<and>
          length (shard_files res) = 2 \<and>
          shard_files res ! 0 = ex_ghdr @ record_bytes ex_rec_a \<and>
          shard_files res ! 1 = ex_ghdr @ record_bytes ex_rec_b)"
proof -
  have c: "\<forall>r \<in> set [ex_rec_a, ex_rec_b]. complete_record r" using ex_complete by simp
  have one: "(1::int) \<le> 2" by simp
  from split_writes_every_record_once [OF one ex_ghdr_length c ex_tail_truncated, of id]
  obtain res where res: "split_pcap_flowhash id
             (ex_ghdr @ concat (map record_bytes [ex_rec_a, ex_rec_b]) @ ex_tail) 2 = Inr res"
    and len: "length (shard_files res) = nat 2"
    and files: "\<forall>i < nat 2. shard_files res ! i =
               ex_ghdr @ concat (map record_bytes
                  (filter (\<lambda>r. shard_index id 2 (snd r) = int i) [ex_rec_a, ex_rec_b]))"
    by blast
  have f0: "shard_files res ! 0 = ex_ghdr @ record_bytes ex_rec_a"
    using files [rule_format, of 0] by (simp add: ex_shards)
  have f1: "shard_files res ! 1 = ex_ghdr @ record_bytes ex_rec_b"
    using files [rule_format, of 1] by (simp add: ex_shards)
  show ?thesis using res len f0 f1 ex_complete ex_tail_truncated ex_ghdr_length by auto
qed

lemma ex_capture_records:
  "pcap_records ex_capture PCAP_GLOBAL_HDR_LEN = [ex_rec_a, ex_rec_b]"
proof -
  have c: "\<forall>r \<in> set [ex_rec_a, ex_rec_b]. complete_record r" using ex_complete by simp
  show ?thesis
    using pcap_records_concat [OF ex_tail_truncated c, of ex_ghdr]
    by (simp add: ex_capture_def ex_ghdr_length)
qed

lemma ex_capture_length: "PCAP_GLOBAL_HDR_LEN \<le> length ex_capture"
  by (simp add: ex_capture_def ex_ghdr_length)

theorem shard_is_function_of_key_witness:
  "(1::int) \<le> 2 \<and> PCAP_GLOBAL_HDR_LEN \<le> length ex_capture \<and>
   (\<exists>res. split_pcap_flowhash id ex_capture 2 = Inr res \<and>
      pcap_records (shard_files res ! 0) PCAP_GLOBAL_HDR_LEN = [ex_rec_a] \<and>
      pcap_records (shard_files res ! 1) PCAP_GLOBAL_HDR_LEN = [ex_rec_b] \<and>
      (\<exists>fr. map_of (flows res) [88, 1, 2] = Some fr \<and> worker fr = 1 \<and> pkt_count fr = 1) \<and>
      (\<exists>fr. map_of (flows res) [88, 7] = Some fr \<and> worker fr = 2 \<and> pkt_count fr = 1))"
proof -
  have one: "(1::int) \<le> 2" by simp
  from shard_is_function_of_key [OF one ex_capture_length, of id]
  obtain res where res: "split_pcap_flowhash id ex_capture 2 = Inr res"
    and files: "\<forall>i < nat 2. pcap_records (shard_files res ! i) PCAP_GLOBAL_HDR_LEN =
               filter (\<lambda>r. key_shard id 2 (fst (tuple_for_packet (snd r))) = int i)
                 (pcap_records ex_capture PCAP_GLOBAL_HDR_LEN)"
    and fm: "\<forall>r \<in> set (pcap_records ex_capture PCAP_GLOBAL_HDR_LEN).
               \<exists>fr. map_of (flows res) (fst (tuple_for_packet (snd r))) = Some fr \<and>
                 worker fr = key_shard id 2 (fst (tuple_for_packet (snd r))) + 1 \<and>
                 pkt_count fr = key_count (fst (tuple_for_packet (snd r)))
                                  (pcap_records ex_capture PCAP_GLOBAL_HDR_LEN)"
    by blast
  have f0: "pcap_records (shard_files res ! 0) PCAP_GLOBAL_HDR_LEN = [ex_rec_a]"
    using files [rule_format, of 0] by (simp add: ex_capture_records ex_keys ex_key_shards)
  have f1: "pcap_records (shard_files res ! 1) PCAP_GLOBAL_HDR_LEN = [ex_rec_b]"
    using files [rule_format, of 1] by (simp add: ex_capture_records ex_keys ex_key_shards)
  have ma: "\<exists>fr. map_of (flows res) [88, 1, 2] = Some fr \<and> worker fr = 1 \<and> pkt_count fr = 1"
    using fm [rule_format, of ex_rec_a]
    by (simp add: ex_capture_records ex_keys ex_key_shards key_count_def)
  have mb: "\<exists>fr. map_of (flows res) [88, 7] = Some fr \<and> worker fr = 2 \<and> pkt_count fr = 1"
    using fm [rule_format, of ex_rec_b]
    by (simp add: ex_capture_records ex_keys ex_key_shards key_count_def)
  show ?thesis using res f0 f1 ma mb ex_capture_length by auto
qed

theorem split_raises_iff_short_witness:
  "(1::int) \<le> 2 \<and>
   length ([] :: bytes) < PCAP_GLOBAL_HDR_LEN \<and> split_pcap_flowhash id [] 2 = Inl ValueError \<and>
   PCAP_GLOBAL_HDR_LEN \<le> length ex_capture \<and> (\<exists>res. split_pcap_flowhash id ex_capture 2 = Inr res) \<and>
   length ex_ghdr = PCAP_GLOBAL_HDR_LEN \<and> complete_record ex_rec_a \<and> complete_record ex_rec_b \<and>
   truncated_tail ex_tail \<and>
   split_pcap_flowhash id (ex_ghdr @ concat (map record_bytes [ex_rec_a, ex_rec_b]) @ ex_tail) 2 =
   split_pcap_flowhash id (ex_ghdr @ concat (map record_bytes [ex_rec_a, ex_rec_b])) 2"
proof -
  have one: "(1::int) \<le> 2" by simp
  have short: "length ([] :: bytes) < PCAP_GLOBAL_HDR_LEN" by (simp add: PCAP_GLOBAL_HDR_LEN_def)
  have c: "\<forall>r \<in> set [ex_rec_a, ex_rec_b]. complete_record r" using ex_complete by simp
  note t1 = split_raises_iff_short [OF one, of "[]" id ex_ghdr "[ex_rec_a, ex_rec_b]" ex_tail]
  note t2 = split_raises_iff_short [OF one, of ex_capture id ex_ghdr "[ex_rec_a, ex_rec_b]" ex_tail]
  have a: "split_pcap_flowhash id [] 2 = Inl ValueError" using t1 short by blast
  have b: "\<exists>res. split_pcap_flowhash id ex_capture 2 = Inr res"
    using t2 ex_capture_length by blast
  have d: "split_pcap_flowhash id (ex_ghdr @ concat (map record_bytes [ex_rec_a, ex_rec_b]) @ ex_tail) 2 =
           split_pcap_flowhash id (ex_ghdr @ concat (map record_bytes [ex_rec_a, ex_rec_b])) 2"
    using t1 ex_ghdr_length c ex_tail_truncated by blast
  show ?thesis using one short a b d ex_capture_length ex_ghdr_length ex_complete ex_tail_truncated
    by blast
qed

lemma from_bytes_little_zeros: "from_bytes_little (replicate n 0) = 0"
  by (induction n) simp_all

text \<open>
  C3 as stated does not hold for every worker count the function accepts: with
  \<open>workers = 0\<close> a 40-byte capture holding one empty record raises
  \<open>ZeroDivisionError\<close> at \<open>_hash_key(key) % workers\<close>, although it is longer than the
  global header.
\<close>

theorem split_zero_workers_counterexample:
  "PCAP_GLOBAL_HDR_LEN \<le> length (replicate 40 (0::byte)) \<and>
   split_pcap_flowhash id (replicate 40 0) 0 = Inl ZeroDivisionError"
proof -
  have "split_loop id 0 (replicate 40 0) 24 \<lparr>outs = [], flow_map = []\<rparr> = Inl ZeroDivisionError"
    by (subst split_loop.simps)
       (simp add: PCAP_PKT_HDR_LEN_def py_slice_def Let_def route_packet_def py_mod_def
                  from_bytes_little_zeros split: prod.split)
  then show ?thesis
    by (simp add: split_pcap_flowhash_def PCAP_GLOBAL_HDR_LEN_def Let_def)
qed

lemma ipv4_short_l4_none:
  assumes "24 \<le> length pkt"
    and "unat (pkt ! 23) = 6 \<or> unat (pkt ! 23) = 17"
    and "length pkt - 14 < unat ((pkt ! 14) AND 0x0F) * 4 + 4"
  shows "ipv4_tuple pkt = None"
  using assms by (auto simp: ipv4_tuple_def Let_def)

lemma ipv6_not_ethertype_none:
  assumes "from_bytes_big (py_slice pkt 12 14) = 0x0800"
  shows "ipv6_tuple pkt = None"
  using assms by (auto simp: ipv6_tuple_def Let_def)

text \<open>
  C4, as amended. A frame with ether-type 0x0800, version nibble 4, at least the declared
  IP header length, protocol TCP or UDP and fewer than 4 bytes after the IP header is not
  given an IPv4 key: \<open>_ipv4_tuple\<close> returns \<open>None\<close> and \<open>tuple_for_packet\<close> returns the
  fallback key \<open>X\<close> + the first 64 bytes, with the placeholder display tuple.
\<close>

theorem short_l4_falls_back:
  assumes "24 \<le> length pkt"
    and "from_bytes_big (py_slice pkt 12 14) = 0x0800"
    and "drop_bit 4 (pkt ! 14) = 4"
    and "unat ((pkt ! 14) AND 0x0F) * 4 \<le> length pkt - 14"
    and "unat (pkt ! 23) = 6 \<or> unat (pkt ! 23) = 17"
    and "length pkt - 14 < unat ((pkt ! 14) AND 0x0F) * 4 + 4"
  shows "tuple_for_packet pkt =
          ([byte_of_char (CHR ''X'')] @ take 64 pkt,
           \<lparr>ip_ver = 0, src_ip = ''-'', dst_ip = ''-'', src_port = 0, dst_port = 0, proto = 0\<rparr>)"
  using ipv4_short_l4_none [OF assms(1) assms(5) assms(6)] ipv6_not_ethertype_none [OF assms(2)]
  by (simp add: tuple_for_packet_def)

lemma ex_short_tcp_fields:
  "length ex_short_tcp = 34" "from_bytes_big (py_slice ex_short_tcp 12 14) = 0x0800"
  "ex_short_tcp ! 14 = 0x45" "ex_short_tcp ! 23 = 6"
  by (simp_all add: ex_short_tcp_def py_slice_def from_bytes_big_def nth_append)

lemma nibbles_0x45: "drop_bit 4 (0x45 :: byte) = 4" "unat ((0x45 :: byte) AND 0x0F) * 4 = 20"
  by simp_all

theorem short_l4_falls_back_witness:
  "24 \<le> length ex_short_tcp \<and> from_bytes_big (py_slice ex_short_tcp 12 14) = 0x0800 \<and>
   drop_bit 4 (ex_short_tcp ! 14) = 4 \<and>
   unat ((ex_short_tcp ! 14) AND 0x0F) * 4 \<le> length ex_short_tcp - 14 \<and>
   unat (ex_short_tcp ! 23) = 6 \<and>
   length ex_short_tcp - 14 < unat ((ex_short_tcp ! 14) AND 0x0F) * 4 + 4 \<and>
   tuple_for_packet ex_short_tcp =
     ([byte_of_char (CHR ''X'')] @ take 64 ex_short_tcp,
      \<lparr>ip_ver = 0, src_ip = ''-'', dst_ip = ''-'', src_port = 0, dst_port = 0, proto = 0\<rparr>)"
proof -
  have h1: "24 \<le> length ex_short_tcp" by (simp add: ex_short_tcp_fields)
  have h3: "drop_bit 4 (ex_short_tcp ! 14) = 4" by (simp add: ex_short_tcp_fields)
  have h4: "unat ((ex_short_tcp ! 14) AND 0x0F) * 4 \<le> length ex_short_tcp - 14"
    by (simp add: ex_short_tcp_fields)
  have h5: "unat (ex_short_tcp ! 23) = 6 \<or> unat (ex_short_tcp ! 23) = 17"
    by (simp add: ex_short_tcp_fields)
  have h6: "length ex_short_tcp - 14 < unat ((ex_short_tcp ! 14) AND 0x0F) * 4 + 4"
    by (simp add: ex_short_tcp_fields)
  from short_l4_falls_back [OF h1 ex_short_tcp_fields(2) h3 h4 h5 h6]
  show ?thesis using h1 h3 h4 h6 ex_short_tcp_fields by simp
qed

text \<open>
  C4 as stated fails on this frame: its key starts with \<open>X\<close>, not \<open>4\<close>, and its display
  tuple has IP version 0.
\<close>

theorem short_l4_ipv4_key_counterexample:
  "length ex_short_tcp = 34 \<and> from_bytes_big (py_slice ex_short_tcp 12 14) = 0x0800 \<and>
   drop_bit 4 (ex_short_tcp ! 14) = 4 \<and> unat ((ex_short_tcp ! 14) AND 0x0F) * 4 = 20 \<and>
   unat (ex_short_tcp ! 23) = 6 \<and>
   hd (fst (tuple_for_packet ex_short_tcp)) = byte_of_char (CHR ''X'') \<and>
   hd (fst (tuple_for_packet ex_short_tcp)) \<noteq> byte_of_char (CHR ''4'') \<and>
   ip_ver (snd (tuple_for_packet ex_short_tcp)) = 0 \<and>
   ipv4_tuple ex_short_tcp = None"
proof -
  have none4: "ipv4_tuple ex_short_tcp = None"
    by (rule ipv4_short_l4_none) (simp_all add: ex_short_tcp_fields)
  have none6: "ipv6_tuple ex_short_tcp = None"
    by (rule ipv6_not_ethertype_none) (rule ex_short_tcp_fields)
  have "tuple_for_packet ex_short_tcp =
     ([byte_of_char (CHR ''X'')] @ take 64 ex_short_tcp,
      \<lparr>ip_ver = 0, src_ip = ''-'', dst_ip = ''-'', src_port = 0, dst_port = 0, proto = 0\<rparr>)"
    using none4 none6 by (simp add: tuple_for_packet_def)
  then show ?thesis using none4 by (simp add: ex_short_tcp_fields byte_of_char_def)
qed

text \<open>
  Every capture of at least 24 bytes is of the form used in C2: its first 24 bytes,
  the complete records that the loop reads, and a truncated rest.
\<close>

lemma capture_records_rest:
  "off \<le> length data \<Longrightarrow>
   \<exists>t. drop off data = concat (map record_bytes (pcap_records data off)) @ t \<and> truncated_tail t"
proof (induction data off rule: pcap_records.induct)
  case (1 data off)
  let ?hdr = "py_slice data off (off + PCAP_PKT_HDR_LEN)"
  let ?len = "from_bytes_little (py_slice ?hdr 8 12)"
  let ?end = "off + PCAP_PKT_HDR_LEN + ?len"
  have hdr8: "py_slice ?hdr 8 12 = py_slice (drop off data) 8 12"
    by (simp add: py_slice_def PCAP_PKT_HDR_LEN_def take_drop min_def)
  show ?case
  proof (cases "off + PCAP_PKT_HDR_LEN \<le> length data \<and> \<not> ?end > length data")
    case True
    then have le: "?end \<le> length data" by simp
    from 1(1) [OF _ refl refl refl refl _ le] True
    obtain t where t: "drop ?end data = concat (map record_bytes (pcap_records data ?end)) @ t"
      and tt: "truncated_tail t" by auto
    have rec: "pcap_records data off =
        (?hdr, py_slice data (off + PCAP_PKT_HDR_LEN) ?end) # pcap_records data ?end"
      using True by (subst pcap_records.simps) (simp add: Let_def)
    have split: "drop off data =
        ?hdr @ py_slice data (off + PCAP_PKT_HDR_LEN) ?end @ drop ?end data"
    proof -
      have "drop off data = take (PCAP_PKT_HDR_LEN + ?len) (drop off data) @
                            drop (PCAP_PKT_HDR_LEN + ?len) (drop off data)"
        by (rule append_take_drop_id [symmetric])
      also have "take (PCAP_PKT_HDR_LEN + ?len) (drop off data) =
                 take PCAP_PKT_HDR_LEN (drop off data) @
                 take ?len (drop PCAP_PKT_HDR_LEN (drop off data))"
        by (simp add: take_add)
      finally show ?thesis by (simp add: py_slice_def ac_simps)
    qed
    have "drop off data = concat (map record_bytes (pcap_records data off)) @ t"
      using split t rec by simp
    then show ?thesis using tt by blast
  next
    case False
    then have e: "pcap_records data off = []"
      by (subst pcap_records.simps) (auto simp: Let_def)
    have "truncated_tail (drop off data)"
      using False 1(2) hdr8 by (auto simp: truncated_tail_def)
    then show ?thesis using e by simp
  qed
qed

lemma capture_decomposition:
  assumes "PCAP_GLOBAL_HDR_LEN \<le> length data"
  shows "\<exists>t. data = take PCAP_GLOBAL_HDR_LEN data @
                  concat (map record_bytes (pcap_records data PCAP_GLOBAL_HDR_LEN)) @ t \<and>
             length (take PCAP_GLOBAL_HDR_LEN data) = PCAP_GLOBAL_HDR_LEN \<and>
             (\<forall>r \<in> set (pcap_records data PCAP_GLOBAL_HDR_LEN). complete_record r) \<and>
             truncated_tail t"
proof -
  from capture_records_rest [OF assms]
  obtain t where t: "drop PCAP_GLOBAL_HDR_LEN data =
      concat (map record_bytes (pcap_records data PCAP_GLOBAL_HDR_LEN)) @ t"
    and tt: "truncated_tail t" by blast
  have "data = take PCAP_GLOBAL_HDR_LEN data @ drop PCAP_GLOBAL_HDR_LEN data" by simp
  then have "data = take PCAP_GLOBAL_HDR_LEN data @
                  concat (map record_bytes (pcap_records data PCAP_GLOBAL_HDR_LEN)) @ t"
    using t by simp
  then show ?thesis using tt assms pcap_records_complete by auto
qed

section \<open>Properties of the query language\<close>









lemma compile_step_total: "\<exists>ps. compile_step preds tok = Inr ps"
proof (cases preds)
  case Nil
  then show ?thesis by (simp add: compile_step_def Let_def)
next
  case (Cons b rest)
  then show ?thesis
    by (cases rest) (simp_all add: compile_step_def Let_def py_pop_def)
qed

lemma compile_rpn_total: "\<exists>ps. compile_rpn rpn preds = Inr ps"
proof (induction rpn arbitrary: preds)
  case Nil
  then show ?case by simp
next
  case (Cons tok rpn)
  obtain ps where "compile_step preds tok = Inr ps" using compile_step_total by blast
  then show ?case using Cons.IH [of ps] by simp
qed

lemma compile_query_total: "\<exists>r. compile_query q = Inr r"
proof -
  obtain ps where "compile_rpn (to_rpn (tokenize (py_strip q))) [] = Inr ps"
    using compile_rpn_total by blast
  then show ?thesis
    by (cases ps) (simp_all add: compile_query_def Let_def)
qed

lemma compile_bare_and: "compile_query ''AND'' = Inr (Some always_true)"
proof -
  have "py_strip ''AND'' = ''AND''" "tokenize ''AND'' = [''AND'']" "to_rpn [''AND''] = [''AND'']"
    "py_upper ''AND'' = ''AND''"
    by code_simp+
  then show ?thesis by (simp add: compile_query_def compile_step_def)
qed

lemma atom_char_quote: "atom_char (CHR 0x22)"
  by (simp add: atom_char_def is_space_def)

text \<open>
  The fourth alternative of the token pattern never decides a token: a string it could
  match starts with a double quote, which the third alternative \<open>[^\s()]+\<close> accepts.
\<close>

lemma alt_quoted_unreachable:
  "alt_atom s = None \<Longrightarrow> alt_quoted s = None"
  by (cases s) (auto simp: alt_quoted_def alt_atom_def atom_char_quote split: if_splits)

lemma token_len_without_quoted:
  "token_len s =
     (case alt_paren s of Some n \<Rightarrow> Some n | None \<Rightarrow>
      case alt_keyword s of Some n \<Rightarrow> Some n | None \<Rightarrow> alt_atom s)"
  by (simp add: token_len_def alt_quoted_unreachable split: option.splits)

text \<open>
  C7 fails on the code. The tokenizer splits \<open>f:"foo bar"\<close> at the space into \<open>f:"foo\<close>
  and \<open>bar"\<close>, although the quoted alternative alone would match the whole quoted span;
  the compiled predicate is the bare term \<open>bar"\<close>, which rejects a row whose field \<open>f\<close> is
  \<open>foo bar\<close> and accepts a row without \<open>f\<close> that holds \<open>bar"\<close> somewhere.
\<close>

theorem quoted_value_is_split:
  "tokenize ex_quoted_query = [''f:'' @ [CHR 0x22] @ ''foo'', ''bar'' @ [CHR 0x22]] \<and>
   alt_quoted ex_quoted_value = Some (length ex_quoted_value) \<and>
   tokenize ex_quoted_value = [[CHR 0x22] @ ''foo'', ''bar'' @ [CHR 0x22]] \<and>
   run_query ex_quoted_query [(''f'', ''foo bar'')] = Some False \<and>
   run_query ex_quoted_query [(''g'', ''bar'' @ [CHR 0x22])] = Some True"
  unfolding ex_quoted_query_def ex_quoted_value_def by code_simp

lemma py_strip_no_space:
  assumes "s \<noteq> []" "\<not> is_space (hd s)" "\<not> is_space (last s)"
  shows "py_strip s = s"
proof -
  have a: "dropWhile is_space s = s" using assms(1,2) by (cases s) simp_all
  have "rev s \<noteq> []" "\<not> is_space (hd (rev s))" using assms(1,3) by (simp_all add: hd_rev)
  then have b: "dropWhile is_space (rev s) = rev s" by (cases "rev s") simp_all
  show ?thesis by (simp add: py_strip_def a b)
qed

lemma atom_char_not_space: "atom_char c \<Longrightarrow> \<not> is_space c"
  by (simp add: atom_char_def)

lemma tokenize_Nil: "tokenize [] = []"
  by (subst tokenize.simps)
     (simp add: token_len_def alt_paren_def alt_keyword_def ci_prefix_def alt_atom_def alt_quoted_def)

lemma tokenize_single_atom:
  assumes "s \<noteq> []" "\<forall>c \<in> set s. atom_char c" "alt_keyword s = None"
  shows "tokenize s = [s]"
proof -
  obtain c cs where s: "s = c # cs" using assms(1) by (cases s) auto
  have c: "atom_char c" using assms(2) s by simp
  have d: "dropWhile is_space s = s" using c s by (simp add: atom_char_def)
  have p: "alt_paren s = None" using c s by (simp add: alt_paren_def atom_char_def)
  have tw: "takeWhile atom_char s = s" using assms(2) by (simp add: takeWhile_eq_all_conv)
  have a: "alt_atom s = Some (length s)" using assms(1) by (simp add: alt_atom_def tw)
  have t: "token_len s = Some (length s)" by (simp add: token_len_def p assms(3) a)
  have "tokenize s =
     (let r = dropWhile is_space s in
      case token_len r of
        None \<Rightarrow> (case s of [] \<Rightarrow> [] | c # t \<Rightarrow> tokenize t)
      | Some n \<Rightarrow>
          if n = 0 then (case r of [] \<Rightarrow> [] | c # t \<Rightarrow> tokenize t)
          else (case r of [] \<Rightarrow> [] | c # t \<Rightarrow> take n r # tokenize (drop n r)))"
    by (rule tokenize.simps)
  also have "\<dots> = [s]"
    unfolding Let_def d t using assms(1) by (simp add: tokenize_Nil split: list.split)
  finally show ?thesis .
qed

lemma py_upper_Cons:
  "py_upper (c # s) = (if c = CHR 0xDF then ''SS'' else [upper_char c]) @ py_upper s"
  by (simp add: py_upper_def)

lemma py_upper_colon: "CHR '':'' \<in> set s \<Longrightarrow> CHR '':'' \<in> set (py_upper s)"
proof (induction s)
  case Nil
  then show ?case by simp
next
  case (Cons c s)
  have u: "upper_char (CHR '':'') = CHR '':''" by (simp add: upper_char_def)
  show ?case
  proof (cases "c = CHR '':''")
    case True
    then show ?thesis using u by (simp add: py_upper_Cons)
  next
    case False
    then have "CHR '':'' \<in> set (py_upper s)" using Cons by simp
    then show ?thesis by (simp add: py_upper_Cons)
  qed
qed

lemma norm_with_colon:
  assumes "CHR '':'' \<in> set t"
  shows "py_upper t \<noteq> ''AND''" "py_upper t \<noteq> ''OR''" "py_upper t \<noteq> ''NOT''"
        "t \<noteq> ''(''" "t \<noteq> '')''" "norm t = t"
proof -
  have m: "CHR '':'' \<in> set (py_upper t)" using assms by (rule py_upper_colon)
  show u: "py_upper t \<noteq> ''AND''" "py_upper t \<noteq> ''OR''" "py_upper t \<noteq> ''NOT''"
    using m by auto
  show "t \<noteq> ''(''" "t \<noteq> '')''" using assms by auto
  show "norm t = t" using u by (simp add: norm_def)
qed

lemma to_rpn_single_term:
  assumes "CHR '':'' \<in> set t"
  shows "to_rpn [t] = [t]"
  using norm_with_colon [OF assms]
  by (simp add: to_rpn_def rpn_step_def)

lemma compile_single_term:
  assumes "s \<noteq> []" "\<forall>c \<in> set s. atom_char c" "alt_keyword s = None" "CHR '':'' \<in> set s"
  shows "compile_query s = Inr (Some (term_predicate s))"
proof -
  have h: "\<not> is_space (hd s)" "\<not> is_space (last s)"
    using assms(1,2) by (simp_all add: atom_char_not_space)
  have st: "py_strip s = s" by (rule py_strip_no_space [OF assms(1) h])
  show ?thesis
    using assms(1) norm_with_colon [OF assms(4)]
    by (simp add: compile_query_def st tokenize_single_atom [OF assms(1,2,3)]
                  to_rpn_single_term [OF assms(4)] compile_step_def)
qed

lemma lower_char_colon: "lower_char (CHR '':'') = CHR '':''"
  by (simp add: lower_char_def)

lemma ci_prefix_append_sep:
  assumes "\<not> ci_prefix kw f" "CHR '':'' \<notin> set (map lower_char kw)"
  shows "\<not> ci_prefix kw (f @ CHR '':'' # p)"
proof (cases "length kw \<le> length f")
  case True
  then show ?thesis using assms(1) by (simp add: ci_prefix_def)
next
  case False
  show ?thesis
  proof
    assume "ci_prefix kw (f @ CHR '':'' # p)"
    then have eq: "map lower_char (take (length kw) (f @ CHR '':'' # p)) = map lower_char kw"
      by (simp add: ci_prefix_def)
    have "take (length kw) (f @ CHR '':'' # p) = f @ CHR '':'' # take (length kw - Suc (length f)) p"
      using False by (simp add: take_Cons')
    then have "CHR '':'' \<in> set (map lower_char (take (length kw) (f @ CHR '':'' # p)))"
      by (simp add: lower_char_colon)
    then have "CHR '':'' \<in> set (map lower_char kw)" unfolding eq .
    then show False using assms(2) by blast
  qed
qed

lemma alt_keyword_append_sep:
  assumes "alt_keyword f = None"
  shows "alt_keyword (f @ CHR '':'' # p) = None"
proof -
  have k: "CHR '':'' \<notin> set (map lower_char ''AND'')" "CHR '':'' \<notin> set (map lower_char ''OR'')"
    "CHR '':'' \<notin> set (map lower_char ''NOT'')"
    by code_simp+
  have "\<not> ci_prefix ''AND'' f" "\<not> ci_prefix ''OR'' f" "\<not> ci_prefix ''NOT'' f"
    using assms by (auto simp: alt_keyword_def split: if_splits)
  then show ?thesis
    using k by (simp add: alt_keyword_def ci_prefix_append_sep)
qed

lemma newline_is_space: "is_space (CHR 0x0A)"
  by (simp add: is_space_def)

lemma match_field_plain:
  assumes "f \<noteq> []" "\<forall>c \<in> set f. not_sep c" "p \<noteq> []" "\<forall>c \<in> set p. \<not> is_space c"
  shows "match_field (f @ CHR '':'' # p) = Some (f, p)"
proof -
  have g1: "takeWhile not_sep (f @ CHR '':'' # p) = f"
    using assms(2) by (simp add: takeWhile_append2 not_sep_def)
  have rest: "dropWhile not_sep (f @ CHR '':'' # p) = CHR '':'' # p"
    using assms(2) by (simp add: dropWhile_append2 not_sep_def)
  obtain c cs where p: "p = c # cs" using assms(3) by (cases p) auto
  have k: "takeWhile is_space p = []" using assms(4) p by simp
  have nl: "\<forall>c \<in> set p. c \<noteq> CHR 0x0A" using assms(4) newline_is_space by auto
  have run: "takeWhile (\<lambda>c. c \<noteq> CHR 0x0A) p = p" "dropWhile (\<lambda>c. c \<noteq> CHR 0x0A) p = []"
    using nl by (simp_all add: takeWhile_eq_all_conv)
  have d: "dot_plus_end p = Some p" using assms(3) by (simp add: dot_plus_end_def run)
  show ?thesis
    using assms(1) by (simp add: match_field_def g1 rest k d)
qed

lemma wildcard_match_empty: "wildcard_match p [] = (\<forall>c \<in> set p. c = CHR ''*'')"
  by (induction p) auto

lemma strip_quotes_unquoted: "hd s \<noteq> CHR 0x22 \<Longrightarrow> strip_quotes s = s"
  by (simp add: strip_quotes_def)

lemma term_predicate_field:
  assumes "f \<noteq> []" "\<forall>c \<in> set f. atom_char c \<and> not_sep c" "hd f \<noteq> CHR 0x22"
    and "p \<noteq> []" "\<forall>c \<in> set p. atom_char c"
  shows "term_predicate (f @ CHR '':'' # p) row = match_value (row_get row f) (strip_quotes p)"
proof -
  have hdt: "hd (f @ CHR '':'' # p) \<noteq> CHR 0x22" using assms(1,3) by simp
  have ns: "\<forall>c \<in> set f. not_sep c" "\<forall>c \<in> set p. \<not> is_space c"
    using assms(2,5) by (simp_all add: atom_char_def)
  have sf: "py_strip f = f"
    using assms(1,2) by (intro py_strip_no_space) (simp_all add: atom_char_def)
  have sp: "py_strip p = p"
    using assms(4,5) by (intro py_strip_no_space) (simp_all add: atom_char_def)
  show ?thesis
    by (simp add: term_predicate_def strip_quotes_unquoted [OF hdt]
                  match_field_plain [OF assms(1) ns(1) assms(4) ns(2)] sf sp)
qed

text \<open>
  C8, as amended. Let \<open>f\<close> and \<open>p\<close> be non-empty and free of whitespace and parentheses,
  \<open>f\<close> without \<open>:\<close> and \<open>=\<close>, not starting with a double quote and not starting with
  \<open>and\<close>, \<open>or\<close> or \<open>not\<close> in any letter case. On a row without field \<open>f\<close> the query \<open>f:p\<close>
  evaluates to true exactly when the pattern (with surrounding quotes stripped) consists of
  \<open>*\<close> only; so it is false for every pattern with a character other than \<open>*\<close>.
\<close>

theorem missing_field_matches_only_stars:
  assumes "f \<noteq> []" "\<forall>c \<in> set f. atom_char c \<and> not_sep c" "hd f \<noteq> CHR 0x22"
    and "alt_keyword f = None"
    and "p \<noteq> []" "\<forall>c \<in> set p. atom_char c"
    and "map_of row f = None"
  shows "run_query (f @ '':'' @ p) row = Some (\<forall>c \<in> set (strip_quotes p). c = CHR ''*'')"
proof -
  let ?t = "f @ CHR '':'' # p"
  have colon_atom: "atom_char (CHR '':'')" by (simp add: atom_char_def is_space_def)
  have ne: "?t \<noteq> []" by simp
  have atoms: "\<forall>c \<in> set ?t. atom_char c" using assms(2,6) colon_atom by auto
  have kw: "alt_keyword ?t = None" by (rule alt_keyword_append_sep [OF assms(4)])
  have colon: "CHR '':'' \<in> set ?t" by simp
  have c: "compile_query ?t = Inr (Some (term_predicate ?t))"
    by (rule compile_single_term [OF ne atoms kw colon])
  have g: "row_get row f = []" using assms(7) by (simp add: row_get_def)
  have "run_query ?t row = Some (term_predicate ?t row)" by (simp add: run_query_def c)
  also have "\<dots> = Some (match_value [] (strip_quotes p))"
    using term_predicate_field [OF assms(1,2,3,5,6), of row] by (simp add: g)
  also have "\<dots> = Some (\<forall>c \<in> set (strip_quotes p). c = CHR ''*'')"
    by (simp add: match_value_def wildcard_match_empty)
  finally show ?thesis by simp
qed

theorem missing_field_matches_only_stars_witness:
  "''uid'' \<noteq> [] \<and> list_all (\<lambda>c. atom_char c \<and> not_sep c) ''uid'' \<and> hd ''uid'' \<noteq> CHR 0x22 \<and>
   alt_keyword ''uid'' = None \<and> ''C*x'' \<noteq> [] \<and> list_all atom_char ''C*x'' \<and>
   map_of [(''ts'', ''1.0'')] ''uid'' = None \<and>
   run_query (''uid'' @ '':'' @ ''C*x'') [(''ts'', ''1.0'')] = Some False"
proof -
  have f: "list_all (\<lambda>c. atom_char c \<and> not_sep c) ''uid''" by code_simp
  have p: "list_all atom_char ''C*x''" by code_simp
  have h: "hd ''uid'' \<noteq> CHR 0x22" by simp
  have k: "alt_keyword ''uid'' = None" by code_simp
  have m: "map_of [(''ts'', ''1.0'')] ''uid'' = None" by simp
  have s: "strip_quotes ''C*x'' = ''C*x''" by (simp add: strip_quotes_def)
  have f': "\<forall>c \<in> set ''uid''. atom_char c \<and> not_sep c" using f unfolding list_all_iff .
  have p': "\<forall>c \<in> set ''C*x''. atom_char c" using p unfolding list_all_iff .
  have "run_query (''uid'' @ '':'' @ ''C*x'') [(''ts'', ''1.0'')] =
          Some (\<forall>c \<in> set (strip_quotes ''C*x''). c = CHR ''*'')"
    by (rule missing_field_matches_only_stars [OF _ f' h k _ p' m]) simp_all
  then have "run_query (''uid'' @ '':'' @ ''C*x'') [(''ts'', ''1.0'')] = Some False"
    by (simp add: s)
  then show ?thesis using f p h k m by simp
qed

text \<open>
  C8 as stated fails for the pattern \<open>*\<close>, which is not empty and matches the empty
  string: on a row without field \<open>f\<close> the query \<open>f:*\<close> is true.
\<close>

theorem missing_field_star_counterexample:
  "map_of ([] :: row) ''f'' = None \<and> ''*'' \<noteq> [] \<and> run_query ''f:*'' [] = Some True"
  by code_simp

text \<open>
  A field name that starts with \<open>and\<close>, \<open>or\<close> or \<open>not\<close> is cut by the keyword alternative
  of the token pattern, which has no word boundary: \<open>orig_bytes:5\<close> becomes the operator
  \<open>or\<close> and the term \<open>ig_bytes:5\<close>, and the query is true on every row.
\<close>

lemma keyword_prefix_cuts_field:
  "tokenize ''orig_bytes:5'' = [''or'', ''ig_bytes:5''] \<and>
   run_query ''orig_bytes:5'' [] = Some True"
  by code_simp

lemma compile_blank_query:
  assumes "\<forall>c \<in> set q. is_space c"
  shows "compile_query q = Inr None"
proof -
  have d: "dropWhile is_space q = []" using assms by (simp only: dropWhile_eq_Nil_conv)
  have "py_strip q = []" unfolding py_strip_def d by simp
  then show ?thesis by (simp add: compile_query_def)
qed

lemma file_lines_from_line:
  "CHR 0x0A \<notin> set l \<Longrightarrow>
   file_lines_from cur (l @ CHR 0x0A # rest) = (cur @ l @ [CHR 0x0A]) # file_lines_from [] rest"
  by (induction l arbitrary: cur) auto

lemma file_lines_written:
  assumes "\<forall>l \<in> set ls. CHR 0x0A \<notin> set l"
  shows "file_lines (written_lines ls) = map (\<lambda>l. l @ [CHR 0x0A]) ls"
  using assms
proof (induction ls)
  case Nil
  then show ?case by (simp add: file_lines_def written_lines_def)
next
  case (Cons l ls)
  then have "file_lines_from [] (l @ CHR 0x0A # written_lines ls) =
             (l @ [CHR 0x0A]) # file_lines_from [] (written_lines ls)"
    using file_lines_from_line [of l "[]" "written_lines ls"] by simp
  then show ?case using Cons by (simp add: file_lines_def written_lines_def)
qed

lemma rstrip_newlines_line:
  assumes "CHR 0x0A \<notin> set l"
  shows "rstrip_newlines (l @ [CHR 0x0A]) = l"
proof -
  have "\<forall>c \<in> set (rev l). \<not> c = CHR 0x0A" using assms by auto
  then have "dropWhile (\<lambda>c. c = CHR 0x0A) (rev l) = rev l"
    by (cases "rev l") simp_all
  then show ?thesis by (simp add: rstrip_newlines_def)
qed

lemma read_line_rows:
  "length (all_rows (read_line None st line)) =
     length (all_rows st) + (if startswith (rstrip_newlines line) ''#'' then 0 else 1)"
  by (simp add: read_line_def Let_def split: prod.split option.split)

lemma read_lines_rows:
  "length (all_rows (foldl (read_line None) st lines)) =
     length (all_rows st) + length (filter (\<lambda>l. \<not> startswith (rstrip_newlines l) ''#'') lines)"
  by (induction lines arbitrary: st) (simp_all add: read_line_rows)

lemma decoded_rows_count:
  assumes "\<forall>l \<in> set ls. l \<noteq> [] \<and> CHR 0x0A \<notin> set l"
  shows "length (decoded_rows (written_lines ls)) =
           length (filter (\<lambda>l. l \<noteq> [] \<and> \<not> startswith l ''#'') ls)"
proof -
  have nl: "\<forall>l \<in> set ls. CHR 0x0A \<notin> set l" using assms by simp
  have "length (decoded_rows (written_lines ls)) =
          length (filter (\<lambda>l. \<not> startswith (rstrip_newlines l) ''#'') (map (\<lambda>l. l @ [CHR 0x0A]) ls))"
    by (simp add: decoded_rows_def file_lines_written [OF nl] read_lines_rows)
  also have "\<dots> = length (filter (\<lambda>l. \<not> startswith (rstrip_newlines (l @ [CHR 0x0A])) ''#'') ls)"
    by (simp add: filter_map comp_def)
  also have "\<dots> = length (filter (\<lambda>l. l \<noteq> [] \<and> \<not> startswith l ''#'') ls)"
    using assms by (intro arg_cong [where f = length] filter_cong) (auto simp: rstrip_newlines_line)
  finally show ?thesis .
qed

text \<open>
  C10. For a merged log file (non-empty lines, each written with its newline) and an empty
  or whitespace-only query: compilation returns no predicate, the total is the number of
  lines that are neither comments nor empty, which is the number of decoded rows, and the
  page is the list of all decoded rows sliced by the reported offset and limit (the offset
  floored to 0, the limit clamped to 1..5000).
\<close>

theorem blank_query_selects_all_rows:
  assumes "\<forall>c \<in> set q. is_space c"
    and "\<forall>l \<in> set ls. l \<noteq> [] \<and> CHR 0x0A \<notin> set l"
  shows "compile_query q = Inr None \<and>
         (\<exists>resp. get_log (Some (written_lines ls)) offset limit q = Inr resp \<and>
            r_total resp = length (filter (\<lambda>l. l \<noteq> [] \<and> \<not> startswith l ''#'') ls) \<and>
            r_total resp = length (decoded_rows (written_lines ls)) \<and>
            r_offset resp = max 0 offset \<and>
            r_limit resp = min 5000 (max 1 limit) \<and>
            r_rows resp = py_slice (decoded_rows (written_lines ls))
                            (nat (r_offset resp)) (nat (r_offset resp + r_limit resp)))"
proof -
  have c: "compile_query q = Inr None" by (rule compile_blank_query [OF assms(1)])
  show ?thesis
    using decoded_rows_count [OF assms(2)]
    by (auto simp: c get_log_def Let_def decoded_rows_def max_def min_def)
qed

theorem blank_query_selects_all_rows_witness:
  "list_all is_space '' '' \<and>
   list_all (\<lambda>l. l \<noteq> [] \<and> CHR 0x0A \<notin> set l) ex_log_lines \<and>
   compile_query '' '' = Inr None \<and>
   (\<exists>resp. get_log (Some (written_lines ex_log_lines)) 1 1 '' '' = Inr resp \<and>
      r_total resp = 2 \<and> r_offset resp = 1 \<and> r_limit resp = 1 \<and>
      r_rows resp = [[(''ts'', ''2.0'')]])"
proof -
  have q: "list_all is_space '' ''" by code_simp
  have l: "list_all (\<lambda>l. l \<noteq> [] \<and> CHR 0x0A \<notin> set l) ex_log_lines"
    unfolding ex_log_lines_def by code_simp
  have q': "\<forall>c \<in> set '' ''. is_space c" using q unfolding list_all_iff .
  have l': "\<forall>l \<in> set ex_log_lines. l \<noteq> [] \<and> CHR 0x0A \<notin> set l" using l unfolding list_all_iff .
  have n: "length (filter (\<lambda>l. l \<noteq> [] \<and> \<not> startswith l ''#'') ex_log_lines) = 2"
    unfolding ex_log_lines_def by code_simp
  have d: "decoded_rows (written_lines ex_log_lines) = [[(''ts'', ''1.0'')], [(''ts'', ''2.0'')]]"
    unfolding ex_log_lines_def by code_simp
  from blank_query_selects_all_rows [OF q' l', of 1 1]
  obtain resp where c: "compile_query '' '' = Inr None"
    and r: "get_log (Some (written_lines ex_log_lines)) 1 1 '' '' = Inr resp"
    and t: "r_total resp = length (filter (\<lambda>l. l \<noteq> [] \<and> \<not> startswith l ''#'') ex_log_lines)"
    and o: "r_offset resp = max 0 1" and m: "r_limit resp = min 5000 (max 1 1)"
    and p: "r_rows resp = py_slice (decoded_rows (written_lines ex_log_lines))
                            (nat (r_offset resp)) (nat (r_offset resp + r_limit resp))"
    by blast
  have o': "r_offset resp = 1" and m': "r_limit resp = 1" using o m by simp_all
  have "r_rows resp = [[(''ts'', ''2.0'')]]"
    using p by (simp add: d o' m' py_slice_def)
  then show ?thesis using q l c r t n o' m' by auto
qed

text \<open>
  \<open>get_log\<close> itself does not skip empty lines (\<open>_read_zeek_log\<close> does): a text that holds
  one empty line gives one row. The merger never writes such a line.
\<close>

lemma get_log_counts_empty_line:
  "\<exists>resp. get_log (Some [CHR 0x0A]) 0 200 [] = Inr resp \<and> r_total resp = 1 \<and>
          r_rows resp = [[(''_raw'', [])]]"
proof -
  have c: "compile_query [] = Inr None" by (rule compile_blank_query) simp
  have "foldl (read_line None) \<lparr>ls_fields = None, header_meta = [], all_rows = []\<rparr>
          (file_lines [CHR 0x0A]) =
        \<lparr>ls_fields = Some [''_raw''], header_meta = [], all_rows = [[(''_raw'', [])]]\<rparr>"
    by (simp add: file_lines_def read_line_def rstrip_newlines_def startswith_def)
  then show ?thesis by (simp add: get_log_def c Let_def py_slice_def)
qed

lemma compile_rpn_append:
  "compile_rpn (xs @ ys) preds =
     (case compile_rpn xs preds of Inl e \<Rightarrow> Inl e | Inr preds' \<Rightarrow> compile_rpn ys preds')"
  by (induction xs arbitrary: preds) (simp_all split: sum.splits)

lemma compile_step_too_few:
  "too_few_operands tok preds \<Longrightarrow> compile_step preds tok = Inr (always_true # preds)"
  by (auto simp: too_few_operands_def compile_step_def)

lemma to_rpn_Nil: "to_rpn [] = []"
  by (simp add: to_rpn_def)

text \<open>
  C9, as amended. Compiling any query string returns without an error. An operator that
  finds too few operands pushes the always-true predicate in its place and compilation goes
  on with the rest of the postfix sequence; when that operator is the last postfix token,
  the compiled query is the always-true predicate.
\<close>

theorem malformed_operator_pushes_true:
  "(\<exists>r. compile_query q = Inr r) \<and>
   (compile_rpn pre [] = Inr preds \<and> too_few_operands tok preds \<longrightarrow>
      compile_rpn (pre @ tok # post) [] = compile_rpn post (always_true # preds)) \<and>
   (to_rpn (tokenize (py_strip q)) = pre @ [tok] \<and> compile_rpn pre [] = Inr preds \<and>
    too_few_operands tok preds \<longrightarrow>
      compile_query q = Inr (Some always_true)) \<and>
   (\<forall>row. always_true row)"
proof (intro conjI impI)
  show "\<exists>r. compile_query q = Inr r" by (rule compile_query_total)
next
  assume "compile_rpn pre [] = Inr preds \<and> too_few_operands tok preds"
  then show "compile_rpn (pre @ tok # post) [] = compile_rpn post (always_true # preds)"
    by (simp add: compile_rpn_append compile_step_too_few)
next
  assume a: "to_rpn (tokenize (py_strip q)) = pre @ [tok] \<and> compile_rpn pre [] = Inr preds \<and>
    too_few_operands tok preds"
  then have r: "compile_rpn (to_rpn (tokenize (py_strip q))) [] = Inr (always_true # preds)"
    by (simp add: compile_rpn_append compile_step_too_few)
  have t: "tokenize (py_strip q) \<noteq> []" using a to_rpn_Nil by auto
  have s: "py_strip q \<noteq> []" using t tokenize_Nil by auto
  show "compile_query q = Inr (Some always_true)"
    using s t r by (simp add: compile_query_def)
next
  show "\<forall>row. always_true row" by (simp add: always_true_def)
qed

theorem malformed_operator_pushes_true_witness:
  "(\<exists>r. compile_query ''a AND'' = Inr r) \<and>
   compile_rpn [] [] = Inr [] \<and> too_few_operands ''AND'' [] \<and>
   compile_rpn ([] @ ''AND'' # [''NOT'']) [] = compile_rpn [''NOT''] [always_true] \<and>
   to_rpn (tokenize (py_strip ''a AND'')) = [''a''] @ [''AND''] \<and>
   compile_rpn [''a''] [] = Inr [term_predicate ''a''] \<and>
   too_few_operands ''AND'' [term_predicate ''a''] \<and>
   compile_query ''a AND'' = Inr (Some always_true)"
proof -
  have u: "py_upper ''AND'' = ''AND''" "py_upper ''a'' = ''A''" by code_simp+
  have f0: "too_few_operands ''AND'' []" by (simp add: too_few_operands_def u)
  have f1: "too_few_operands ''AND'' [term_predicate ''a'']" by (simp add: too_few_operands_def u)
  have r: "to_rpn (tokenize (py_strip ''a AND'')) = [''a''] @ [''AND'']" by code_simp
  have c0: "compile_rpn [] [] = Inr ([] :: (row \<Rightarrow> bool) list)" by simp
  have c1: "compile_rpn [''a''] [] = Inr [term_predicate ''a'']"
    by (simp add: compile_step_def u)
  note t0 = malformed_operator_pushes_true [of "''a AND''" "[]" "[]" "''AND''" "[''NOT'']"]
  note t1 = malformed_operator_pushes_true
              [of "''a AND''" "[''a'']" "[term_predicate ''a'']" "''AND''" "[]"]
  have a: "\<exists>r. compile_query ''a AND'' = Inr r" using t0 by blast
  have b: "compile_rpn ([] @ ''AND'' # [''NOT'']) [] = compile_rpn [''NOT''] [always_true]"
    using t0 c0 f0 by blast
  have d: "compile_query ''a AND'' = Inr (Some always_true)"
    using t1 r c1 f1 by blast
  show ?thesis using a c0 f0 b r c1 f1 d by blast
qed

text \<open>
  C9 as stated fails in its last part: a malformed fragment does not always leave the most
  permissive query. In \<open>NOT (AND)\<close> the operator \<open>AND\<close> finds no operand and pushes the
  always-true predicate, which \<open>NOT\<close> then negates: the compiled query matches no row.
\<close>

theorem not_and_counterexample:
  "to_rpn (tokenize (py_strip ''NOT (AND)'')) = [''AND'', ''NOT''] \<and>
   too_few_operands ''AND'' [] \<and>
   compile_query ''NOT (AND)'' = Inr (Some (\<lambda>row. \<not> always_true row)) \<and>
   run_query ''NOT (AND)'' [] = Some False \<and>
   run_query ''NOT (AND)'' [(''uid'', ''C1'')] = Some False"
proof -
  have u: "py_upper ''AND'' = ''AND''" "py_upper ''NOT'' = ''NOT''" by code_simp+
  have s: "py_strip ''NOT (AND)'' = ''NOT (AND)''" by code_simp
  have t: "tokenize ''NOT (AND)'' = [''NOT'', ''('', ''AND'', '')'']" by code_simp
  have r: "to_rpn [''NOT'', ''('', ''AND'', '')''] = [''AND'', ''NOT'']" by code_simp
  have c: "compile_query ''NOT (AND)'' = Inr (Some (\<lambda>row. \<not> always_true row))"
    by (simp add: compile_query_def s t r compile_step_def u py_pop_def)
  show ?thesis
    using c by (simp add: s t r too_few_operands_def u run_query_def always_true_def)
qed

section \<open>The lines of a merged log\<close>

lemma join_split_on: "join [sep] (split_on sep s) = s"
proof (induction s)
  case Nil
  then show ?case by simp
next
  case (Cons c s)
  show ?case
  proof (cases "c = sep")
    case True
    then show ?thesis using Cons by (cases "split_on sep s") simp_all
  next
    case False
    obtain p ps where sp: "split_on sep s = p # ps"
      by (cases s; cases "split_on sep s") (auto split: if_splits list.splits)
    then show ?thesis using Cons False by (cases ps) simp_all
  qed
qed

lemma rstrip_newlines_free:
  "CHR 0x0A \<notin> set l \<Longrightarrow> rstrip_newlines l = l"
proof -
  assume "CHR 0x0A \<notin> set l"
  then have "\<forall>c \<in> set (rev l). \<not> c = CHR 0x0A" by auto
  then have "dropWhile (\<lambda>c. c = CHR 0x0A) (rev l) = rev l"
    by (cases "rev l") simp_all
  then show ?thesis by (simp add: rstrip_newlines_def)
qed

lemma file_lines_from_stripped:
  "CHR 0x0A \<notin> set cur \<Longrightarrow>
   \<forall>l \<in> set (file_lines_from cur s). CHR 0x0A \<notin> set (rstrip_newlines l)"
proof (induction s arbitrary: cur)
  case Nil
  then show ?case by (simp add: rstrip_newlines_free)
next
  case (Cons c s)
  show ?case
  proof (cases "c = CHR 0x0A")
    case True
    have "CHR 0x0A \<notin> set (rstrip_newlines (cur @ [CHR 0x0A]))"
      using Cons.prems by (simp add: rstrip_newlines_line)
    moreover have "\<forall>l \<in> set (file_lines_from [] s). CHR 0x0A \<notin> set (rstrip_newlines l)"
      by (rule Cons.IH) simp
    ultimately show ?thesis using True by simp
  next
    case False
    have "\<forall>l \<in> set (file_lines_from (cur @ [c]) s). CHR 0x0A \<notin> set (rstrip_newlines l)"
      using Cons.prems False by (intro Cons.IH) auto
    then show ?thesis using False by simp
  qed
qed

lemma file_lines_stripped:
  "\<forall>l \<in> set (file_lines text). CHR 0x0A \<notin> set (rstrip_newlines l)"
  unfolding file_lines_def by (rule file_lines_from_stripped) simp

lemma startswith_hash_nonempty: "startswith l ''#'' \<Longrightarrow> l \<noteq> []"
  by (auto simp: startswith_def)

lemma zeek_line_plain:
  assumes "CHR 0x0A \<notin> set (rstrip_newlines line0)"
    and "\<forall>h \<in> set (fst st). plain_line h"
    and "\<forall>r \<in> set (snd (snd st)). plain_line (join [CHR 0x09] r)"
  shows "(\<forall>h \<in> set (fst (zeek_line st line0)). plain_line h) \<and>
         (\<forall>r \<in> set (snd (snd (zeek_line st line0))). plain_line (join [CHR 0x09] r))"
proof -
  obtain hs fs rs where st: "st = (hs, fs, rs)" by (cases st) auto
  show ?thesis
    using assms startswith_hash_nonempty [of "rstrip_newlines line0"]
    by (auto simp: st zeek_line_def Let_def plain_line_def join_split_on)
qed

lemma zeek_lines_plain:
  assumes "\<forall>l \<in> set lines. CHR 0x0A \<notin> set (rstrip_newlines l)"
  shows "(\<forall>h \<in> set (fst st). plain_line h) \<Longrightarrow>
         (\<forall>r \<in> set (snd (snd st)). plain_line (join [CHR 0x09] r)) \<Longrightarrow>
         (\<forall>h \<in> set (fst (foldl zeek_line st lines)). plain_line h) \<and>
         (\<forall>r \<in> set (snd (snd (foldl zeek_line st lines))). plain_line (join [CHR 0x09] r))"
  using assms
proof (induction lines arbitrary: st)
  case Nil
  then show ?case by simp
next
  case (Cons l lines)
  have a: "CHR 0x0A \<notin> set (rstrip_newlines l)" using Cons.prems(3) by simp
  have b: "\<forall>l \<in> set lines. CHR 0x0A \<notin> set (rstrip_newlines l)" using Cons.prems(3) by simp
  from zeek_line_plain [OF a Cons.prems(1) Cons.prems(2)]
  have "(\<forall>h \<in> set (fst (zeek_line st l)). plain_line h)"
    "(\<forall>r \<in> set (snd (snd (zeek_line st l))). plain_line (join [CHR 0x09] r))"
    by simp_all
  from Cons.IH [OF this b] show ?case by simp
qed

lemma read_zeek_log_plain:
  "(\<forall>h \<in> set (fst (read_zeek_log text)). plain_line h) \<and>
   (\<forall>r \<in> set (snd (snd (read_zeek_log text))). plain_line (join [CHR 0x09] r))"
  unfolding read_zeek_log_def
  by (rule zeek_lines_plain [OF file_lines_stripped]) simp_all

text \<open>
  Whatever order the sort leaves the rows in, the merged log is written as non-empty lines,
  each with its newline: header lines, which start with \<open>#\<close>, and the rows joined back
  into the non-empty lines they were read from.
\<close>

lemma merged_log_lines:
  assumes "\<forall>i rows. set (sort_by_ts i rows) = set rows"
  shows "\<exists>ls. merge_one_log sort_by_ts texts = written_lines ls \<and>
              (\<forall>l \<in> set ls. l \<noteq> [] \<and> CHR 0x0A \<notin> set l)"
proof -
  obtain hs fs rs where first: "read_zeek_log (hd texts) = (hs, fs, rs)"
    by (cases "read_zeek_log (hd texts)") auto
  let ?rows = "concat (map (\<lambda>t. snd (snd (read_zeek_log t))) texts)"
  let ?sorted = "case ts_index fs of None \<Rightarrow> ?rows | Some i \<Rightarrow> sort_by_ts i ?rows"
  have hs: "\<forall>h \<in> set hs. plain_line h" using read_zeek_log_plain [of "hd texts"] first by simp
  have rows: "\<forall>r \<in> set ?rows. plain_line (join [CHR 0x09] r)"
    using read_zeek_log_plain by auto
  have "set ?sorted = set ?rows" using assms by (cases "ts_index fs") simp_all
  then have sorted: "\<forall>r \<in> set ?sorted. plain_line (join [CHR 0x09] r)" using rows by simp
  have "merge_one_log sort_by_ts texts = written_lines (hs @ map (join [CHR 0x09]) ?sorted)"
    by (simp add: merge_one_log_def first Let_def)
  moreover have "\<forall>l \<in> set (hs @ map (join [CHR 0x09]) ?sorted). l \<noteq> [] \<and> CHR 0x0A \<notin> set l"
    using hs sorted by (auto simp: plain_line_def)
  ultimately show ?thesis by blast
qed

lemma merge_one_log_rows:
  "merge_one_log sort_by_ts texts =
     written_lines (canonical_header texts @ map (join [CHR 0x09])
        (case ts_index (canonical_fields texts) of
           None \<Rightarrow> concat_rows texts
         | Some i \<Rightarrow> sort_by_ts i (concat_rows texts)))"
proof -
  obtain hs fs rs where first: "read_zeek_log (hd texts) = (hs, fs, rs)"
    by (cases "read_zeek_log (hd texts)") auto
  show ?thesis
    unfolding concat_rows_def canonical_header_def canonical_fields_def
    by (simp add: merge_one_log_def first Let_def)
qed

lemma py_insort_insort_key:
  assumes "key x \<noteq> NaN" "\<forall>y \<in> set ys. key y \<noteq> NaN"
  shows "py_insort key x ys = insort_key (\<lambda>x. num_of (key x)) x ys"
  using assms
proof (induction ys)
  case Nil
  then show ?case by simp
next
  case (Cons y ys)
  obtain a where a: "key x = Num a" using Cons.prems(1) by (cases "key x") auto
  obtain b where b: "key y = Num b" using Cons.prems(2) by (cases "key y") auto
  show ?case using Cons by (auto simp: a b)
qed

lemma set_py_isort: "set (py_isort key xs) = set xs"
proof -
  have ins: "set (py_insort key x ys) = insert x (set ys)" for x ys
    by (induction ys) auto
  show ?thesis unfolding py_isort_def by (induction xs) (simp_all add: ins)
qed

lemma py_isort_sort_key:
  "\<forall>x \<in> set xs. key x \<noteq> NaN \<Longrightarrow> py_isort key xs = sort_key (\<lambda>x. num_of (key x)) xs"
proof (induction xs)
  case Nil
  then show ?case by (simp add: py_isort_def)
next
  case (Cons x xs)
  have ih: "py_isort key xs = sort_key (\<lambda>x. num_of (key x)) xs" using Cons by simp
  have "py_isort key (x # xs) = py_insort key x (py_isort key xs)" by (simp add: py_isort_def)
  also have "\<dots> = insort_key (\<lambda>x. num_of (key x)) x (py_isort key xs)"
    using Cons.prems by (intro py_insort_insort_key) (simp_all add: set_py_isort)
  finally show ?case by (simp add: ih sort_key_def)
qed

lemma py_isort_contract: "sort_contract py_isort"
  unfolding sort_contract_def using py_isort_sort_key by blast

lemma float_le_num:
  "x \<noteq> NaN \<Longrightarrow> y \<noteq> NaN \<Longrightarrow> float_le x y = (num_of x \<le> num_of y)"
  by (cases x; cases y) simp_all

lemma sorted_wrt_float_le:
  "\<forall>x \<in> set xs. key x \<noteq> NaN \<Longrightarrow>
   sorted_wrt float_le (map key xs) = sorted (map (\<lambda>x. num_of (key x)) xs)"
  by (induction xs) (auto simp: float_le_num)

lemma sorted_wrt_pair:
  "sorted_wrt P xs \<Longrightarrow> x \<in> set xs \<Longrightarrow> y \<in> set xs \<Longrightarrow> x \<noteq> y \<Longrightarrow> P x y \<or> P y x"
  by (induction xs) auto

lemma stable_by_float_key:
  assumes "\<forall>x \<in> set xs. key x \<noteq> NaN"
  shows "filter (\<lambda>r. key r = k) (sort_key (\<lambda>x. num_of (key x)) xs) = filter (\<lambda>r. key r = k) xs"
proof (cases k)
  case (Num a)
  have eq: "\<And>ys. set ys \<subseteq> set xs \<Longrightarrow>
            filter (\<lambda>r. key r = k) ys = filter (\<lambda>r. num_of (key r) = a) ys"
  proof -
    fix ys assume sub: "set ys \<subseteq> set xs"
    show "filter (\<lambda>r. key r = k) ys = filter (\<lambda>r. num_of (key r) = a) ys"
    proof (rule filter_cong [OF refl])
      fix r assume "r \<in> set ys"
      then have "key r \<noteq> NaN" using sub assms by auto
      then show "(key r = k) = (num_of (key r) = a)" using Num by (cases "key r") auto
    qed
  qed
  have "filter (\<lambda>r. key r = k) (sort_key (\<lambda>x. num_of (key x)) xs) =
        filter (\<lambda>r. num_of (key r) = a) (sort_key (\<lambda>x. num_of (key x)) xs)"
    by (rule eq) simp
  also have "\<dots> = filter (\<lambda>r. num_of (key r) = a) xs" by (rule sort_key_stable)
  also have "\<dots> = filter (\<lambda>r. key r = k) xs" by (rule eq [symmetric]) simp
  finally show ?thesis .
next
  case NaN
  have "filter (\<lambda>r. key r = k) ys = []" if "set ys \<subseteq> set xs" for ys
    using that assms NaN by (auto simp: filter_empty_conv)
  then show ?thesis by simp
qed

text \<open>
  C5, as amended. Let \<open>list.sort\<close> keep its promise on keys without NaN. If the canonical
  field list has no \<open>ts\<close>, the merged log holds the rows in concatenation order. If it has
  \<open>ts\<close> at position \<open>i\<close> and no row's key (the value at \<open>i\<close> parsed as a float, 0.0 when
  missing or unparseable) is NaN, the merged rows are the stable sort of the concatenated
  rows by the key: non-decreasing in the key, the same rows, and rows with equal keys in
  their concatenation order.
\<close>

theorem merged_rows_stable_sorted_by_ts:
  assumes "sort_contract list_sort"
  shows "(ts_index (canonical_fields texts) = None \<longrightarrow>
            merge_one_log (\<lambda>i. list_sort (ts_val py_float i)) texts =
              written_lines (canonical_header texts @
                             map (join [CHR 0x09]) (concat_rows texts))) \<and>
         (ts_index (canonical_fields texts) = Some i \<and>
          (\<forall>r \<in> set (concat_rows texts). ts_val py_float i r \<noteq> NaN) \<longrightarrow>
            (\<exists>out. merge_one_log (\<lambda>i. list_sort (ts_val py_float i)) texts =
                      written_lines (canonical_header texts @ map (join [CHR 0x09]) out) \<and>
                    out = sort_key (\<lambda>r. num_of (ts_val py_float i r)) (concat_rows texts) \<and>
                    sorted_wrt float_le (map (ts_val py_float i) out) \<and>
                    set out = set (concat_rows texts) \<and>
                    length out = length (concat_rows texts) \<and>
                    (\<forall>k. filter (\<lambda>r. ts_val py_float i r = k) out =
                         filter (\<lambda>r. ts_val py_float i r = k) (concat_rows texts))))"
proof (intro conjI impI)
  assume "ts_index (canonical_fields texts) = None"
  then show "merge_one_log (\<lambda>i. list_sort (ts_val py_float i)) texts =
              written_lines (canonical_header texts @
                             map (join [CHR 0x09]) (concat_rows texts))"
    by (simp add: merge_one_log_rows)
next
  assume a: "ts_index (canonical_fields texts) = Some i \<and>
          (\<forall>r \<in> set (concat_rows texts). ts_val py_float i r \<noteq> NaN)"
  let ?rows = "concat_rows texts"
  let ?out = "sort_key (\<lambda>r. num_of (ts_val py_float i r)) ?rows"
  have nn: "\<forall>r \<in> set ?rows. ts_val py_float i r \<noteq> NaN" using a by simp
  have s: "list_sort (ts_val py_float i) ?rows = ?out"
    using assms nn unfolding sort_contract_def by blast
  have m: "merge_one_log (\<lambda>i. list_sort (ts_val py_float i)) texts =
             written_lines (canonical_header texts @ map (join [CHR 0x09]) ?out)"
    using a by (simp add: merge_one_log_rows s)
  have nn': "\<forall>r \<in> set ?out. ts_val py_float i r \<noteq> NaN" using nn by simp
  have srt: "sorted_wrt float_le (map (ts_val py_float i) ?out)"
    using sorted_wrt_float_le [OF nn'] by simp
  have st: "\<forall>k. filter (\<lambda>r. ts_val py_float i r = k) ?out =
                filter (\<lambda>r. ts_val py_float i r = k) ?rows"
    using stable_by_float_key [OF nn] by blast
  show "\<exists>out. merge_one_log (\<lambda>i. list_sort (ts_val py_float i)) texts =
                      written_lines (canonical_header texts @ map (join [CHR 0x09]) out) \<and>
                    out = ?out \<and>
                    sorted_wrt float_le (map (ts_val py_float i) out) \<and>
                    set out = set ?rows \<and>
                    length out = length ?rows \<and>
                    (\<forall>k. filter (\<lambda>r. ts_val py_float i r = k) out =
                         filter (\<lambda>r. ts_val py_float i r = k) ?rows)"
    using m srt st by simp
qed

lemma ex_no_ts_fields: "ts_index (canonical_fields ex_no_ts_logs) = None"
  unfolding ex_no_ts_logs_def by code_simp

lemma ex_worker_logs_fields: "ts_index (canonical_fields ex_worker_logs) = Some 0"
  unfolding ex_worker_logs_def by code_simp

lemma ex_worker_logs_rows: "concat_rows ex_worker_logs = [[''3''], [''1''], [''2''], [''x'']]"
  unfolding ex_worker_logs_def by code_simp

lemma ex_worker_logs_header:
  "canonical_header ex_worker_logs = [''#fields'' @ [CHR 0x09] @ ''ts'']"
  unfolding ex_worker_logs_def by code_simp

lemma ex_worker_keys:
  "map (ts_val ex_float 0) [[''3''], [''1''], [''2''], [''x'']] = [Num 3, Num 1, Num 2, Num 0]"
  by (simp add: ts_val_def ex_float_def)

theorem merged_rows_stable_sorted_by_ts_witness:
  "sort_contract (py_isort :: (string list \<Rightarrow> int pyfloat) \<Rightarrow> string list list \<Rightarrow> string list list) \<and>
   ts_index (canonical_fields ex_no_ts_logs) = None \<and>
   merge_one_log (\<lambda>i. py_isort (ts_val ex_float i)) ex_no_ts_logs =
     written_lines [''#fields'' @ [CHR 0x09] @ ''uid'', ''b'', ''a''] \<and>
   ts_index (canonical_fields ex_worker_logs) = Some 0 \<and>
   list_all (\<lambda>r. ts_val ex_float 0 r \<noteq> NaN) (concat_rows ex_worker_logs) \<and>
   merge_one_log (\<lambda>i. py_isort (ts_val ex_float i)) ex_worker_logs =
     written_lines [''#fields'' @ [CHR 0x09] @ ''ts'', ''x'', ''1'', ''2'', ''3'']"
proof -
  have c: "sort_contract (py_isort :: (string list \<Rightarrow> int pyfloat) \<Rightarrow> string list list \<Rightarrow> string list list)"
    by (rule py_isort_contract)
  have nn: "\<forall>r \<in> set (concat_rows ex_worker_logs). ts_val ex_float 0 r \<noteq> NaN"
    by (simp add: ex_worker_logs_rows ts_val_def ex_float_def)
  note t1 = merged_rows_stable_sorted_by_ts [OF c, of ex_no_ts_logs ex_float 0]
  note t2 = merged_rows_stable_sorted_by_ts [OF c, of ex_worker_logs ex_float 0]
  have a: "merge_one_log (\<lambda>i. py_isort (ts_val ex_float i)) ex_no_ts_logs =
             written_lines (canonical_header ex_no_ts_logs @
                            map (join [CHR 0x09]) (concat_rows ex_no_ts_logs))"
    using t1 ex_no_ts_fields by blast
  have h: "canonical_header ex_no_ts_logs @ map (join [CHR 0x09]) (concat_rows ex_no_ts_logs) =
           [''#fields'' @ [CHR 0x09] @ ''uid'', ''b'', ''a'']"
    unfolding ex_no_ts_logs_def by code_simp
  have b: "merge_one_log (\<lambda>i. py_isort (ts_val ex_float i)) ex_worker_logs =
             written_lines (canonical_header ex_worker_logs @ map (join [CHR 0x09])
               (sort_key (\<lambda>r. num_of (ts_val ex_float 0 r)) (concat_rows ex_worker_logs)))"
    using t2 ex_worker_logs_fields nn by blast
  have k: "sort_key (\<lambda>r. num_of (ts_val ex_float 0 r)) [[''3''], [''1''], [''2''], [''x'']] =
           [[''x''], [''1''], [''2''], [''3'']]"
    by (simp add: sort_key_def ts_val_def ex_float_def)
  have b': "merge_one_log (\<lambda>i. py_isort (ts_val ex_float i)) ex_worker_logs =
     written_lines [''#fields'' @ [CHR 0x09] @ ''ts'', ''x'', ''1'', ''2'', ''3'']"
    using b unfolding ex_worker_logs_rows ex_worker_logs_header k by simp
  have l: "list_all (\<lambda>r. ts_val ex_float 0 r \<noteq> NaN) (concat_rows ex_worker_logs)"
    using nn unfolding list_all_iff .
  show ?thesis using c ex_no_ts_fields a h ex_worker_logs_fields l b' by simp
qed

lemma ex_nan_log_fields: "ts_index (canonical_fields [ex_nan_log]) = Some 0"
  unfolding ex_nan_log_def by code_simp

lemma ex_nan_log_rows:
  "concat_rows [ex_nan_log] = [[''3''], [''nan''], [''-1''], [''x''], [''1''], [''2'']]"
  unfolding ex_nan_log_def by code_simp

lemma ex_nan_log_header: "canonical_header [ex_nan_log] = [''#fields'' @ [CHR 0x09] @ ''ts'']"
  unfolding ex_nan_log_def by code_simp

lemma ex_nan_keys:
  "map (ts_val ex_float 0) [[''3''], [''nan''], [''-1''], [''x''], [''1''], [''2'']] =
     [Num 3, NaN, Num (- 1), Num 0, Num 1, Num 2]"
  by (simp add: ts_val_def ex_float_def)

lemma ex_nan_sorted:
  "py_isort (ts_val ex_float 0) [[''3''], [''nan''], [''-1''], [''x''], [''1''], [''2'']] =
     [[''3''], [''nan''], [''-1''], [''x''], [''1''], [''2'']]"
  by (simp add: py_isort_def ts_val_def ex_float_def)

text \<open>
  C5 as stated fails when a \<open>ts\<close> value parses to NaN. For the rows with \<open>ts\<close> 3, nan,
  -1, x, 1, 2 the sort leaves the order as it is, with 3 before -1; and no order of these
  rows is non-decreasing, since NaN is not \<open><=\<close> any float.
\<close>

theorem nan_ts_counterexample:
  "ts_index (canonical_fields [ex_nan_log]) = Some 0 \<and>
   merge_one_log (\<lambda>i. py_isort (ts_val ex_float i)) [ex_nan_log] =
     written_lines [''#fields'' @ [CHR 0x09] @ ''ts'', ''3'', ''nan'', ''-1'', ''x'', ''1'', ''2''] \<and>
   map (ts_val ex_float 0) [[''3''], [''nan''], [''-1''], [''x''], [''1''], [''2'']] =
     [Num 3, NaN, Num (- 1), Num 0, Num 1, Num 2] \<and>
   float_lt (Num (- 1)) (Num 3 :: int pyfloat) \<and>
   \<not> sorted_wrt float_le [Num 3, NaN, Num (- 1), Num 0, Num 1, Num 2 :: int pyfloat] \<and>
   \<not> (\<exists>out. set out = set (concat_rows [ex_nan_log]) \<and>
              length out = length (concat_rows [ex_nan_log]) \<and>
              sorted_wrt float_le (map (ts_val ex_float 0) out))"
proof -
  have m: "merge_one_log (\<lambda>i. py_isort (ts_val ex_float i)) [ex_nan_log] =
     written_lines [''#fields'' @ [CHR 0x09] @ ''ts'', ''3'', ''nan'', ''-1'', ''x'', ''1'', ''2'']"
    by (simp add: merge_one_log_rows ex_nan_log_fields ex_nan_log_rows ex_nan_log_header
                  ex_nan_sorted)
  have no: "\<not> (\<exists>out. set out = set (concat_rows [ex_nan_log]) \<and>
              length out = length (concat_rows [ex_nan_log]) \<and>
              sorted_wrt float_le (map (ts_val ex_float 0) out))"
  proof
    assume "\<exists>out. set out = set (concat_rows [ex_nan_log]) \<and>
              length out = length (concat_rows [ex_nan_log]) \<and>
              sorted_wrt float_le (map (ts_val ex_float 0) out)"
    then obtain out where s: "set out = set (concat_rows [ex_nan_log])"
      and w: "sorted_wrt float_le (map (ts_val ex_float 0) out)" by blast
    have "[''nan''] \<in> set out" "[''3''] \<in> set out" using s by (simp_all add: ex_nan_log_rows)
    then have "ts_val ex_float 0 [''nan''] \<in> set (map (ts_val ex_float 0) out)"
      "ts_val ex_float 0 [''3''] \<in> set (map (ts_val ex_float 0) out)" by auto
    then have i: "(NaN :: int pyfloat) \<in> set (map (ts_val ex_float 0) out)"
      "(Num 3 :: int pyfloat) \<in> set (map (ts_val ex_float 0) out)"
      by (simp_all add: ts_val_def ex_float_def)
    have "float_le (NaN :: int pyfloat) (Num 3) \<or> float_le (Num 3) (NaN :: int pyfloat)"
      by (rule sorted_wrt_pair [OF w i]) simp
    then show False by simp
  qed
  show ?thesis using ex_nan_log_fields m ex_nan_keys no by simp
qed

end
